theory Spec2Isabelle
  imports
    Main
    "HOL-Library.Char_ord"
    "HOL-Library.List_Lexorder"
    "HOL-Library.AList"
    "HOL-Library.Multiset"
begin

section \<open>The batch driver of \<^verbatim>\<open>demo/yuanjian.py\<close>\<close>

text \<open>
  The script keeps a ledger of processed file names in \<^verbatim>\<open>processed_files.json\<close>, runs the
  document pipeline of \<^verbatim>\<open>magic_pdf\<close> on every \<^verbatim>\<open>*.pdf\<close> of a directory that the ledger
  does not name, and rewrites the ledger after every success. The embedding below follows
  the four functions of the script: \<^verbatim>\<open>load_processed_files\<close>, \<^verbatim>\<open>save_processed_files\<close>,
  \<^verbatim>\<open>process_single_pdf\<close> and \<^verbatim>\<open>batch\<close>. Exceptions are values, the file system and the
  console are explicit state, and the order in which the pool hands back results, the
  platform and what the standard output can encode are parameters.
\<close>

subsection \<open>Paths\<close>

text \<open>
  A path is the list of its components, so \<^verbatim>\<open>os.path.join(a, b)\<close> appends one component
  (the components the script joins are a stem and fixed names, none of which holds a
  separator). A component is kept as it is written: a stem \<^verbatim>\<open>..\<close> or \<^verbatim>\<open>.\<close>, which
  \<^verbatim>\<open>Path.stem\<close> gives for the names \<^verbatim>\<open>...pdf\<close> and \<^verbatim>\<open>..pdf\<close>, is a component like any
  other here, while on disk it is the parent or the directory itself; what is said below
  about the place of the output files is about the path as joined.

  A name is the byte string the operating system keeps for it; text written in UTF-8 is
  its bytes. Strings are ordered by byte, first difference decides, a proper prefix is
  smaller: on UTF-8 this is the order of the code points, which Python's \<^verbatim>\<open>sorted\<close> uses
  on \<^verbatim>\<open>str\<close>.
\<close>

type_synonym path = "string list"
type_synonym bytes = string

definition os_path_join :: "path \<Rightarrow> string \<Rightarrow> path" where
  "os_path_join p c = p @ [c]"

definition os_path_basename :: "path \<Rightarrow> string" where
  "os_path_basename p = (if p = [] then [] else last p)"

text \<open>\<^verbatim>\<open>Path.name\<close>: the last component.\<close>

definition name :: "path \<Rightarrow> string" where
  "name p = (if p = [] then [] else last p)"

definition parent :: "path \<Rightarrow> path" where
  "parent p = butlast p"

text \<open>\<^verbatim>\<open>str.rfind\<close>: the index of the last occurrence, \<open>None\<close> for Python's \<open>-1\<close>.\<close>

fun rfind :: "char \<Rightarrow> string \<Rightarrow> nat option" where
  "rfind c [] = None"
| "rfind c (x # xs) =
     (case rfind c xs of
        Some i \<Rightarrow> Some (Suc i)
      | None \<Rightarrow> if x = c then Some 0 else None)"

text \<open>
  \<^verbatim>\<open>Path.stem\<close> of pathlib: \<^verbatim>\<open>i = name.rfind('.')\<close>, and \<^verbatim>\<open>name[:i]\<close> when
  \<^verbatim>\<open>0 < i < len(name) - 1\<close>, the whole name otherwise (a leading or a trailing dot starts no
  suffix).
\<close>

definition stem :: "path \<Rightarrow> string" where
  "stem p =
     (let n = name p in
      case rfind (CHR ''.'') n of
        None \<Rightarrow> n
      | Some i \<Rightarrow> if 0 < i \<and> Suc i < length n then take i n else n)"

subsection \<open>Exceptions\<close>

text \<open>
  The exceptions the script can meet. \<open>PipelineError\<close> stands for any exception class
  of the library that derives from \<^verbatim>\<open>Exception\<close>, with its message. \<open>KeyboardInterrupt\<close>
  and \<open>SystemExit\<close> derive from \<^verbatim>\<open>BaseException\<close> only, so \<^verbatim>\<open>except Exception\<close> does
  not match them. The class of an exception matters to the script only through
  \<^verbatim>\<open>except Exception\<close>; where the library has several classes for one kind of failure the
  model names one of them.
\<close>

datatype exn =
    FileExistsError
  | NotADirectoryError
  | IsADirectoryError
  | FileNotFoundError
  | PermissionError
  | SameFileError
  | JSONDecodeError
  | UnicodeEncodeError
  | ValueError
  | PipelineError string
  | KeyboardInterrupt
  | SystemExit

fun is_Exception :: "exn \<Rightarrow> bool" where
  "is_Exception KeyboardInterrupt = False"
| "is_Exception SystemExit = False"
| "is_Exception _ = True"

subsection \<open>Names as text\<close>

text \<open>
  Python reads a file name as text with \<^verbatim>\<open>os.fsdecode\<close> (the encoding of the file
  system is taken to be UTF-8): well-formed UTF-8 becomes the characters it encodes, and
  every other byte becomes a lone surrogate, which the strict UTF-8 encoder of a text
  file refuses with \<^verbatim>\<open>UnicodeEncodeError\<close>. So a name can be
  written to a file opened with \<^verbatim>\<open>encoding="utf-8"\<close> exactly when its bytes are
  well-formed UTF-8: one byte below \<open>0x80\<close>; a lead byte \<open>0xC2\<close> to \<open>0xDF\<close> and one
  continuation byte; a lead byte \<open>0xE0\<close> to \<open>0xEF\<close> and two; a lead byte \<open>0xF0\<close> to
  \<open>0xF4\<close> and three; no overlong form, no surrogate and nothing above \<open>U+10FFFF\<close>.
\<close>

definition continuation :: "nat \<Rightarrow> bool" where
  "continuation b \<longleftrightarrow> 128 \<le> b \<and> b < 192"

fun utf8 :: "nat list \<Rightarrow> bool" where
  "utf8 [] = True"
| "utf8 (a # bs) =
     (if a < 128 then utf8 bs
      else if 194 \<le> a \<and> a < 224 then
        (case bs of
           b # bs' \<Rightarrow> continuation b \<and> utf8 bs'
         | _ \<Rightarrow> False)
      else if 224 \<le> a \<and> a < 240 then
        (case bs of
           b # c # bs' \<Rightarrow>
             (if a = 224 then 160 \<le> b \<and> b < 192
              else if a = 237 then 128 \<le> b \<and> b < 160
              else continuation b) \<and>
             continuation c \<and> utf8 bs'
         | _ \<Rightarrow> False)
      else if 240 \<le> a \<and> a < 245 then
        (case bs of
           b # c # d # bs' \<Rightarrow>
             (if a = 240 then 144 \<le> b \<and> b < 192
              else if a = 244 then 128 \<le> b \<and> b < 144
              else continuation b) \<and>
             continuation c \<and> continuation d \<and> utf8 bs'
         | _ \<Rightarrow> False)
      else False)"

definition encodable :: "string \<Rightarrow> bool" where
  "encodable s = utf8 (map of_char s)"

text \<open>
  \<^verbatim>\<open>Path\<close> is \<^verbatim>\<open>PosixPath\<close> or \<^verbatim>\<open>WindowsPath\<close>, by the platform the script runs on.
  The Windows flavour compares names without regard to the case of letters; \<open>lower\<close>
  folds the letters \<^verbatim>\<open>A\<close> to \<^verbatim>\<open>Z\<close>, the only ones that bear on the pattern of the script.
\<close>

datatype flavour = Posix | Windows

definition lower :: "char \<Rightarrow> char" where
  "lower c =
     (case map_of (zip ''ABCDEFGHIJKLMNOPQRSTUVWXYZ'' ''abcdefghijklmnopqrstuvwxyz'') c of
        Some l \<Rightarrow> l
      | None \<Rightarrow> c)"

definition normcase :: "flavour \<Rightarrow> string \<Rightarrow> string" where
  "normcase fl s = (case fl of Posix \<Rightarrow> s | Windows \<Rightarrow> map lower s)"

subsection \<open>The world: file system, working directory, console\<close>

datatype node = Dir | File bytes

type_synonym fs = "(path \<times> node) list"

text \<open>
  What a file of the working directory holds, as far as \<^verbatim>\<open>json.load\<close> followed by
  \<^verbatim>\<open>set\<close> can tell: a file that cannot be opened, text for which the load raises (a
  document cut short among them), or a JSON array of strings. On an array of names that
  can be written, \<^verbatim>\<open>json.load\<close> gives back what \<^verbatim>\<open>json.dump\<close> wrote. JSON documents of
  another shape that \<^verbatim>\<open>set\<close> accepts (an object, a string, an array with numbers) are
  outside this type.
\<close>

datatype file_content = Unreadable | Corrupt | Names "string list"

datatype console_line =
    Found_line nat nat nat
  | Failed_line string exn
  | Done_line nat

type_synonym task = "path \<times> path"

text \<open>
  \<open>tree\<close> is the file system below the root, in the order a directory scan yields it;
  \<open>cwd\<close> holds the files the script opens by a bare relative name (the ledger), kept
  apart from the tree: the ledger file is taken not to lie at a path that the run
  enumerates or that a worker writes;
  \<open>flavour\<close> is the platform;
  \<open>stdout_encodes n e\<close> tells whether the standard output of a worker can encode the
  line that reports the failure of the file named \<open>n\<close> with the exception \<open>e\<close> (the line
  holds the name and the message of the exception: a strict UTF-8 stream refuses a name
  that is not UTF-8, a stream of a legacy code page refuses the first character of the
  line);
  \<open>submitted\<close> and \<open>completed\<close> are history only: the tasks handed to the pool and the
  outcome of every call of the worker, in order. No decision of the program reads them.
\<close>

record world =
  tree :: fs
  cwd :: "string \<rightharpoonup> file_content"
  cwd_writable :: bool
  flavour :: flavour
  stdout_encodes :: "string \<Rightarrow> exn \<Rightarrow> bool"
  console :: "console_line list"
  submitted :: "task list"
  completed :: "(task \<times> (exn + string option)) list"

subsection \<open>The ledger\<close>

definition PROCESSED_LOG_PATH :: string where
  "PROCESSED_LOG_PATH = ''processed_files.json''"

text \<open>
  Opening the file for reading and \<^verbatim>\<open>json.load\<close> on it, as one step. The two
  exceptions stand for their kind: what \<^verbatim>\<open>open\<close> raises on a file it cannot open
  (\<^verbatim>\<open>PermissionError\<close>, or \<^verbatim>\<open>IsADirectoryError\<close> on a directory) and what the load raises
  on text it cannot read (\<^verbatim>\<open>JSONDecodeError\<close>, or \<^verbatim>\<open>UnicodeDecodeError\<close> on bytes that
  are not UTF-8); all of them derive from \<^verbatim>\<open>Exception\<close>.
\<close>

definition json_load :: "file_content \<Rightarrow> exn + string list" where
  "json_load c =
     (case c of
        Unreadable \<Rightarrow> Inl PermissionError
      | Corrupt \<Rightarrow> Inl JSONDecodeError
      | Names xs \<Rightarrow> Inr xs)"

text \<open>
  \<^verbatim>\<open>load_processed_files\<close>: no \<^verbatim>\<open>try\<close> around the open or the load, so what they raise
  leaves the function.
\<close>

definition load_processed_files :: "world \<Rightarrow> exn + string set" where
  "load_processed_files w =
     (case cwd w PROCESSED_LOG_PATH of
        Some c \<Rightarrow> (case json_load c of Inl e \<Rightarrow> Inl e | Inr xs \<Rightarrow> Inr (set xs))
      | None \<Rightarrow> Inr {})"

text \<open>
  \<^verbatim>\<open>save_processed_files\<close>: \<^verbatim>\<open>open(..., "w")\<close> raises when the file cannot be written, and
  empties it otherwise. \<^verbatim>\<open>json.dump\<close> with \<^verbatim>\<open>ensure_ascii=False\<close> then writes the array
  \<^verbatim>\<open>sorted(list(processed_set))\<close> piece by piece. A name that the encoder of the file
  refuses raises \<^verbatim>\<open>UnicodeEncodeError\<close> out of the function; the file is closed on the
  way and keeps what was written before that name, an array that is never closed, which
  no later load can read.
\<close>

definition save_processed_files :: "string set \<Rightarrow> world \<Rightarrow> (exn + unit) \<times> world" where
  "save_processed_files processed_set w =
     (if \<not> cwd_writable w then (Inl PermissionError, w)
      else if list_all encodable (sorted_list_of_set processed_set)
      then (Inr (), w\<lparr>cwd := (cwd w)(PROCESSED_LOG_PATH \<mapsto> Names (sorted_list_of_set processed_set))\<rparr>)
      else (Inl UnicodeEncodeError, w\<lparr>cwd := (cwd w)(PROCESSED_LOG_PATH \<mapsto> Corrupt)\<rparr>))"

subsection \<open>File-system calls\<close>

text \<open>
  A call on the tree returns the exception it raises or its value, and the tree it leaves
  behind. \<open>and_then\<close> is the semicolon: the second statement runs only if the first did
  not raise.
\<close>

type_synonym 'a fsio = "fs \<Rightarrow> (exn + 'a) \<times> fs"

definition and_then :: "'a fsio \<Rightarrow> ('a \<Rightarrow> 'b fsio) \<Rightarrow> 'b fsio" where
  "and_then m f t = (case m t of (Inl e, t') \<Rightarrow> (Inl e, t') | (Inr a, t') \<Rightarrow> f a t')"

definition call :: "exn + 'a \<Rightarrow> 'a fsio" where
  "call r t = (r, t)"

definition os_path_exists :: "fs \<Rightarrow> path \<Rightarrow> bool" where
  "os_path_exists t p = (p = [] \<or> map_of t p \<noteq> None)"

definition is_dir :: "fs \<Rightarrow> path \<Rightarrow> bool" where
  "is_dir t p = (p = [] \<or> map_of t p = Some Dir)"

text \<open>
  \<^verbatim>\<open>os.makedirs(p, exist_ok=True)\<close>, written from the root downwards: every missing
  prefix becomes a directory, an existing directory is kept, and a regular file in the
  way raises (\<^verbatim>\<open>FileExistsError\<close> at the leaf, \<^verbatim>\<open>NotADirectoryError\<close> above it).
\<close>

fun makedirs_from :: "path \<Rightarrow> string list \<Rightarrow> unit fsio" where
  "makedirs_from pre [] t = (Inr (), t)"
| "makedirs_from pre (c # cs) t =
     (case map_of t (pre @ [c]) of
        Some Dir \<Rightarrow> makedirs_from (pre @ [c]) cs t
      | Some (File b) \<Rightarrow> (Inl (if cs = [] then FileExistsError else NotADirectoryError), t)
      | None \<Rightarrow> makedirs_from (pre @ [c]) cs (AList.update (pre @ [c]) Dir t))"

definition makedirs :: "path \<Rightarrow> unit fsio" where
  "makedirs p = makedirs_from [] p"

definition read_file :: "path \<Rightarrow> bytes fsio" where
  "read_file p t =
     (if p = [] then (Inl IsADirectoryError, t)
      else case map_of t p of
             Some (File b) \<Rightarrow> (Inr b, t)
           | Some Dir \<Rightarrow> (Inl IsADirectoryError, t)
           | None \<Rightarrow> (Inl FileNotFoundError, t))"

definition write_file :: "path \<Rightarrow> bytes \<Rightarrow> unit fsio" where
  "write_file p b t =
     (if is_dir t p then (Inl IsADirectoryError, t)
      else if \<not> is_dir t (parent p) then (Inl FileNotFoundError, t)
      else (Inr (), AList.update p (File b) t))"

text \<open>
  \<^verbatim>\<open>shutil.copyfile\<close>: refuses to copy a file onto itself, then reads the source and
  writes the destination.
\<close>

definition shutil_copyfile :: "path \<Rightarrow> path \<Rightarrow> unit fsio" where
  "shutil_copyfile src dst t =
     (if src = dst \<and> os_path_exists t src then (Inl SameFileError, t)
      else and_then (read_file src) (\<lambda>b. write_file dst b) t)"

subsection \<open>The document pipeline\<close>

text \<open>
  Modelled from the spec: the classes of \<^verbatim>\<open>magic_pdf\<close> that the worker calls
  (\<^verbatim>\<open>FileBasedDataReader\<close>, \<^verbatim>\<open>FileBasedDataWriter\<close>, \<^verbatim>\<open>PymuDocDataset\<close>, the inference
  result and the pipe result) are not among the sources. The specification describes them
  as a classification call that tells an OCR variant from a text variant, and an analysis
  call on the raw bytes and a mode flag whose result object offers a layout rendering, a
  span rendering, a markdown export, a content-list export and an export of the
  intermediate representation, all writing through a writer bound to an output directory.
  Each call is a value here: the exception it raises, or what it produces. An export
  that does not raise writes its bytes to the file it was told to write. A reader or
  writer object is the directory it is bound to.
\<close>

datatype parse_method = OCR | TXT

record pipe_result =
  draw_layout_out :: "exn + bytes"
  draw_span_out :: "exn + bytes"
  dump_md_out :: "exn + bytes"
  dump_content_list_out :: "exn + bytes"
  dump_middle_json_out :: "exn + bytes"

record infer_result =
  pipe_ocr_mode_out :: "exn + (string \<times> bytes) list \<times> pipe_result"
  pipe_txt_mode_out :: "exn + (string \<times> bytes) list \<times> pipe_result"

record dataset =
  classify_out :: "exn + parse_method"
  apply_doc_analyze_out :: "bool \<Rightarrow> exn + infer_result"

type_synonym pipeline = "bytes \<Rightarrow> exn + dataset"

text \<open>
  Modelled from the spec: \<^verbatim>\<open>FileBasedDataReader("").read(path)\<close> of \<^verbatim>\<open>magic_pdf\<close>, which is
  not among the sources; it returns the bytes of the file at the path.
\<close>

definition FileBasedDataReader_read :: "path \<Rightarrow> bytes fsio" where
  "FileBasedDataReader_read p = read_file p"

text \<open>
  Modelled from the spec: the image writer of \<^verbatim>\<open>magic_pdf\<close> (a \<^verbatim>\<open>FileBasedDataWriter\<close>, not
  among the sources) as the pipe uses it; every image goes to a file of its name under
  the writer's directory.
\<close>

fun write_images :: "path \<Rightarrow> (string \<times> bytes) list \<Rightarrow> unit fsio" where
  "write_images image_writer [] t = (Inr (), t)"
| "write_images image_writer ((n, b) # imgs) t =
     and_then (write_file (os_path_join image_writer n) b) (\<lambda>_. write_images image_writer imgs) t"

text \<open>
  Modelled from the spec: \<^verbatim>\<open>pipe_ocr_mode\<close> of the inference result of \<^verbatim>\<open>magic_pdf\<close>, not
  among the sources; it raises, or writes the images it extracted and returns the pipe
  result.
\<close>

definition pipe_ocr_mode :: "infer_result \<Rightarrow> path \<Rightarrow> pipe_result fsio" where
  "pipe_ocr_mode infer image_writer =
     and_then (call (pipe_ocr_mode_out infer)) (\<lambda>(imgs, pr).
     and_then (write_images image_writer imgs) (\<lambda>_. call (Inr pr)))"

text \<open>
  Modelled from the spec: \<^verbatim>\<open>pipe_txt_mode\<close> of the inference result of \<^verbatim>\<open>magic_pdf\<close>, not
  among the sources; as \<open>pipe_ocr_mode\<close>, for the text variant.
\<close>

definition pipe_txt_mode :: "infer_result \<Rightarrow> path \<Rightarrow> pipe_result fsio" where
  "pipe_txt_mode infer image_writer =
     and_then (call (pipe_txt_mode_out infer)) (\<lambda>(imgs, pr).
     and_then (write_images image_writer imgs) (\<lambda>_. call (Inr pr)))"

text \<open>
  Modelled from the spec: \<^verbatim>\<open>draw_layout\<close> of the pipe result of \<^verbatim>\<open>magic_pdf\<close>, not among the
  sources; it raises, or writes the layout rendering to the path it is given.
\<close>

definition draw_layout :: "pipe_result \<Rightarrow> path \<Rightarrow> unit fsio" where
  "draw_layout pr p = and_then (call (draw_layout_out pr)) (write_file p)"

text \<open>
  Modelled from the spec: \<^verbatim>\<open>draw_span\<close> of the pipe result of \<^verbatim>\<open>magic_pdf\<close>, not among the
  sources; it raises, or writes the span rendering to the path it is given.
\<close>

definition draw_span :: "pipe_result \<Rightarrow> path \<Rightarrow> unit fsio" where
  "draw_span pr p = and_then (call (draw_span_out pr)) (write_file p)"

text \<open>
  Modelled from the spec: \<^verbatim>\<open>dump_md\<close> of the pipe result of \<^verbatim>\<open>magic_pdf\<close>, not among the
  sources; it raises, or writes the markdown to the named file under the writer's
  directory.
\<close>

definition dump_md :: "pipe_result \<Rightarrow> path \<Rightarrow> string \<Rightarrow> string \<Rightarrow> unit fsio" where
  "dump_md pr md_writer file_name image_dir =
     and_then (call (dump_md_out pr)) (write_file (os_path_join md_writer file_name))"

text \<open>
  Modelled from the spec: \<^verbatim>\<open>dump_content_list\<close> of the pipe result of \<^verbatim>\<open>magic_pdf\<close>, not
  among the sources; it raises, or writes the content list to the named file under the
  writer's directory.
\<close>

definition dump_content_list :: "pipe_result \<Rightarrow> path \<Rightarrow> string \<Rightarrow> string \<Rightarrow> unit fsio" where
  "dump_content_list pr md_writer file_name image_dir =
     and_then (call (dump_content_list_out pr)) (write_file (os_path_join md_writer file_name))"

text \<open>
  Modelled from the spec: \<^verbatim>\<open>dump_middle_json\<close> of the pipe result of \<^verbatim>\<open>magic_pdf\<close>, not
  among the sources; it raises, or writes the intermediate representation to the named
  file under the writer's directory.
\<close>

definition dump_middle_json :: "pipe_result \<Rightarrow> path \<Rightarrow> string \<Rightarrow> unit fsio" where
  "dump_middle_json pr md_writer file_name =
     and_then (call (dump_middle_json_out pr)) (write_file (os_path_join md_writer file_name))"

subsection \<open>The worker\<close>

text \<open>The body of the \<^verbatim>\<open>try\<close> block of \<^verbatim>\<open>process_single_pdf\<close>, statement by statement.\<close>

definition worker_body :: "pipeline \<Rightarrow> path \<Rightarrow> path \<Rightarrow> unit fsio" where
  "worker_body pl pdf_path output_root =
     (let name_without_extension = stem pdf_path;
          local_image_dir =
            os_path_join (os_path_join output_root name_without_extension) ''images'';
          local_md_dir = os_path_join output_root name_without_extension;
          image_dir = os_path_basename local_image_dir;
          markdown_collect_dir = os_path_join output_root ''markdowns'';
          md_file_name = name_without_extension @ ''.md'';
          src_md_path = os_path_join local_md_dir md_file_name;
          dst_md_path = os_path_join markdown_collect_dir md_file_name
      in
      and_then (makedirs local_image_dir) (\<lambda>_.
      and_then (makedirs local_md_dir) (\<lambda>_.
      and_then (makedirs markdown_collect_dir) (\<lambda>_.
      and_then (FileBasedDataReader_read pdf_path) (\<lambda>pdf_bytes.
      and_then (call (pl pdf_bytes)) (\<lambda>ds.
      and_then (call (classify_out ds)) (\<lambda>method.
      and_then
        (if method = OCR
         then and_then (call (apply_doc_analyze_out ds True))
                (\<lambda>infer_result. pipe_ocr_mode infer_result local_image_dir)
         else and_then (call (apply_doc_analyze_out ds False))
                (\<lambda>infer_result. pipe_txt_mode infer_result local_image_dir)) (\<lambda>pipe_result.
      and_then (draw_layout pipe_result
                  (os_path_join local_md_dir (name_without_extension @ ''_layout.pdf''))) (\<lambda>_.
      and_then (draw_span pipe_result
                  (os_path_join local_md_dir (name_without_extension @ ''_spans.pdf''))) (\<lambda>_.
      and_then (dump_md pipe_result local_md_dir md_file_name image_dir) (\<lambda>_.
      and_then (\<lambda>t. if os_path_exists t src_md_path
                     then shutil_copyfile src_md_path dst_md_path t
                     else (Inr (), t)) (\<lambda>_.
      and_then (dump_content_list pipe_result local_md_dir
                  (name_without_extension @ ''_content_list.json'') image_dir) (\<lambda>_.
      dump_middle_json pipe_result local_md_dir
        (name_without_extension @ ''_middle.json''))))))))))))))"

text \<open>
  \<^verbatim>\<open>process_single_pdf\<close>: the file name on success. On an exception that
  \<^verbatim>\<open>except Exception\<close> matches, the handler prints a line and returns \<^verbatim>\<open>None\<close>; the
  \<^verbatim>\<open>print\<close> stands in no \<^verbatim>\<open>try\<close> of its own, so when the standard output cannot
  encode the line, its \<^verbatim>\<open>UnicodeEncodeError\<close> leaves the function. Any other exception
  of the body leaves the function as it is (\<open>Inl\<close>). What the body wrote before it raised
  stays written.
\<close>

definition process_single_pdf :: "pipeline \<Rightarrow> task \<Rightarrow> world \<Rightarrow> (exn + string option) \<times> world" where
  "process_single_pdf pl args w =
     (case args of (pdf_path, output_root) \<Rightarrow>
        (case worker_body pl pdf_path output_root (tree w) of
           (Inr u, t') \<Rightarrow> (Inr (Some (name pdf_path)), w\<lparr>tree := t'\<rparr>)
         | (Inl e, t') \<Rightarrow>
             if is_Exception e
             then if stdout_encodes w (name pdf_path) e
                  then (Inr None,
                        w\<lparr>tree := t', console := console w @ [Failed_line (name pdf_path) e]\<rparr>)
                  else (Inl UnicodeEncodeError, w\<lparr>tree := t'\<rparr>)
             else (Inl e, w\<lparr>tree := t'\<rparr>)))"

subsection \<open>The batch run\<close>

text \<open>
  The match of one name against one pattern, for patterns of literal characters, \<^verbatim>\<open>*\<close>
  and \<^verbatim>\<open>?\<close> (the pattern of the script has no bracket class): the regular expression
  that \<^verbatim>\<open>fnmatch.translate\<close> builds, matched against the whole name. Characters are
  compared as they are.
\<close>

fun fnmatch :: "string \<Rightarrow> string \<Rightarrow> bool" where
  "fnmatch [] [] = True"
| "fnmatch (c # cs) [] = False"
| "fnmatch [] (p # ps) = (p = CHR ''*'' \<and> fnmatch [] ps)"
| "fnmatch (c # cs) (p # ps) =
     (if p = CHR ''*'' then fnmatch (c # cs) ps \<or> fnmatch cs (p # ps)
      else (p = CHR ''?'' \<or> p = c) \<and> fnmatch cs ps)"

text \<open>
  \<^verbatim>\<open>compile_pattern\<close> of the flavour: the POSIX flavour matches the name as it is, the
  Windows flavour compiles the expression with \<^verbatim>\<open>re.IGNORECASE\<close>, so that a letter matches
  in either case.
\<close>

definition compile_pattern :: "flavour \<Rightarrow> string \<Rightarrow> string \<Rightarrow> bool" where
  "compile_pattern fl pattern n = fnmatch (normcase fl n) (normcase fl pattern)"

text \<open>
  \<^verbatim>\<open>Path(d).glob(pattern)\<close> for a pattern of one component: the entries directly inside
  \<open>d\<close> whose name matches, in scan order; nothing when \<open>d\<close> is no directory.
\<close>

definition glob :: "flavour \<Rightarrow> fs \<Rightarrow> path \<Rightarrow> string \<Rightarrow> path list" where
  "glob fl t d pattern =
     (if is_dir t d
      then [p \<leftarrow> map fst t. p \<noteq> [] \<and> parent p = d \<and> compile_pattern fl pattern (name p)]
      else [])"

text \<open>
  \<^verbatim>\<open>pool.imap_unordered\<close> yields results as the workers finish. The order is the
  scheduler's: each pick takes one of the tasks still running (the pick modulo their
  number); when the picks run out the rest finish in submission order. Every order of
  completion arises from some list of picks.
\<close>

fun completion_order :: "nat list \<Rightarrow> 'a list \<Rightarrow> 'a list" where
  "completion_order [] ts = ts"
| "completion_order (k # ks) ts =
     (if ts = [] then []
      else ts ! (k mod length ts)
           # completion_order ks (take (k mod length ts) ts @ drop (Suc (k mod length ts)) ts))"

text \<open>The body of the \<^verbatim>\<open>for\<close> loop: \<^verbatim>\<open>if result:\<close> is Python's truth test.\<close>

definition handle_result ::
  "string option \<Rightarrow> string set \<times> string list \<Rightarrow> world
     \<Rightarrow> (exn + string set \<times> string list) \<times> world" where
  "handle_result result acc w =
     (case acc of (processed_files, success_files) \<Rightarrow>
        (case result of
           None \<Rightarrow> (Inr acc, w)
         | Some r \<Rightarrow>
             if r = [] then (Inr acc, w)
             else (case save_processed_files (insert r processed_files) w of
                     (Inl e, w') \<Rightarrow> (Inl e, w')
                   | (Inr u, w') \<Rightarrow> (Inr (insert r processed_files, success_files @ [r]), w'))))"

text \<open>
  The loop over the results, in completion order. The pool starts the tasks as workers
  become free and runs them side by side; here the call of a worker takes place on the
  shared tree when the loop comes to its result, so the calls of different workers are
  not interleaved, and when the run ends inside the loop the tasks whose results it did
  not come to are taken not to have run (the pool may have started them).

  An exception that leaves the worker ends the loop. The pool hands an \<^verbatim>\<open>Exception\<close> of
  a task over to the parent, where \<^verbatim>\<open>imap_unordered\<close> raises it again inside the \<^verbatim>\<open>for\<close>
  statement, which no \<^verbatim>\<open>try\<close> encloses. A \<^verbatim>\<open>SystemExit\<close> or \<^verbatim>\<open>KeyboardInterrupt\<close> ends the
  worker process with no result for its task, and the parent waits for that result
  without end. Both are the outcome \<open>Inl\<close> here: the run did not reach the statement
  after the loop. An exception of \<^verbatim>\<open>save_processed_files\<close> ends the loop likewise.
\<close>

fun pool_loop ::
  "pipeline \<Rightarrow> task list \<Rightarrow> string set \<times> string list \<Rightarrow> world
     \<Rightarrow> (exn + string set \<times> string list) \<times> world" where
  "pool_loop pl [] acc w = (Inr acc, w)"
| "pool_loop pl (t # ts) acc w =
     (case process_single_pdf pl t w of
        (Inl e, w1) \<Rightarrow> (Inl e, w1\<lparr>completed := completed w1 @ [(t, Inl e)]\<rparr>)
      | (Inr result, w1) \<Rightarrow>
          (case handle_result result acc (w1\<lparr>completed := completed w1 @ [(t, Inr result)]\<rparr>) of
             (Inl e, w2) \<Rightarrow> (Inl e, w2)
           | (Inr acc', w2) \<Rightarrow> pool_loop pl ts acc' w2))"

text \<open>
  \<^verbatim>\<open>batch\<close>. The result is \<open>None\<close> when the run reached its last statement, and otherwise
  the exception that ended it (for a run that waits for a dead worker, the exception the
  worker died of); with it comes the world the run leaves. \<^verbatim>\<open>Pool(processes=n)\<close> raises
  \<^verbatim>\<open>ValueError\<close> for \<open>n < 1\<close>. The progress bar of \<^verbatim>\<open>tqdm\<close> is not modelled. The two
  lines that \<^verbatim>\<open>batch\<close> itself prints hold fixed text and numbers, no name and no message
  of an exception; the standard output of the parent is taken to show them.
\<close>

definition batch ::
  "pipeline \<Rightarrow> nat list \<Rightarrow> path \<Rightarrow> path \<Rightarrow> int \<Rightarrow> world \<Rightarrow> exn option \<times> world" where
  "batch pl picks pdf_dir output_dir max_workers w =
     (case makedirs output_dir (tree w) of
        (Inl e, t1) \<Rightarrow> (Some e, w\<lparr>tree := t1\<rparr>)
      | (Inr u, t1) \<Rightarrow>
          (let w1 = w\<lparr>tree := t1\<rparr>;
               all_pdf_paths = glob (flavour w1) (tree w1) pdf_dir ''*.pdf''
           in case load_processed_files w1 of
                Inl e \<Rightarrow> (Some e, w1)
              | Inr processed_files \<Rightarrow>
                  (let unprocessed_paths = [p \<leftarrow> all_pdf_paths. name p \<notin> processed_files];
                       task_args = map (\<lambda>p. (p, output_dir)) unprocessed_paths;
                       w2 = w1\<lparr>console := console w1 @
                              [Found_line (length all_pdf_paths) (card processed_files)
                                 (length task_args)]\<rparr>
                   in if max_workers < 1 then (Some ValueError, w2)
                      else
                        (case pool_loop pl (completion_order picks task_args)
                                (processed_files, [])
                                (w2\<lparr>submitted := submitted w2 @ task_args\<rparr>) of
                           (Inl e, w3) \<Rightarrow> (Some e, w3)
                         | (Inr (processed_files', success_files), w3) \<Rightarrow>
                             (case save_processed_files processed_files'
                                     (w3\<lparr>console := console w3 @
                                           [Done_line (length success_files)]\<rparr>) of
                                (Inl e, w4) \<Rightarrow> (Some e, w4)
                              | (Inr u, w4) \<Rightarrow> (None, w4))))))"

subsection \<open>Reading a run off the history\<close>

text \<open>
  Abbreviations for the statements below: the outcomes and the tasks that a run added
  to the history, the tokens among them that pass the truth test of the loop, the
  outcomes the worker can have, the list \<^verbatim>\<open>all_pdf_paths\<close> that \<^verbatim>\<open>batch\<close> computes when it
  starts in a world, and its \<^verbatim>\<open>task_args\<close> for a loaded set.
\<close>

definition run_log :: "world \<Rightarrow> world \<Rightarrow> (task \<times> (exn + string option)) list" where
  "run_log w w' = drop (length (completed w)) (completed w')"

definition run_tasks :: "world \<Rightarrow> world \<Rightarrow> task list" where
  "run_tasks w w' = drop (length (submitted w)) (submitted w')"

definition success_tokens :: "(task \<times> (exn + string option)) list \<Rightarrow> string list" where
  "success_tokens L = [r. (t, Inr (Some r)) \<leftarrow> L, r \<noteq> []]"

definition outcome_ok :: "task \<times> (exn + string option) \<Rightarrow> bool" where
  "outcome_ok x \<longleftrightarrow>
     snd x = Inr (Some (name (fst (fst x)))) \<or> snd x = Inr None \<or>
     snd x = Inl UnicodeEncodeError \<or> (\<exists>e. snd x = Inl e \<and> \<not> is_Exception e)"

definition enumerated :: "path \<Rightarrow> path \<Rightarrow> world \<Rightarrow> path list" where
  "enumerated pdf_dir output_dir w =
     glob (flavour w) (snd (makedirs output_dir (tree w))) pdf_dir ''*.pdf''"

definition pending :: "path \<Rightarrow> path \<Rightarrow> world \<Rightarrow> string set \<Rightarrow> task list" where
  "pending pdf_dir output_dir w S =
     map (\<lambda>p. (p, output_dir)) [p \<leftarrow> enumerated pdf_dir output_dir w. name p \<notin> S]"

subsection \<open>Example inputs\<close>

text \<open>
  A small tree on a POSIX system: an input directory with two documents, a text file
  and a subdirectory that holds a third document; the standard output is a strict UTF-8
  stream, which shows a line unless the name in it is not UTF-8. And four pipelines: one
  that handles every document, one that raises an error on the bytes of \<^verbatim>\<open>b.pdf\<close>, one
  that is interrupted, and one that exits on the bytes of \<^verbatim>\<open>b.pdf\<close>.
\<close>

definition example_world :: world where
  "example_world =
     \<lparr>tree = [([''in''], Dir), ([''in'', ''a.pdf''], File ''A''),
              ([''in'', ''b.pdf''], File ''B''), ([''in'', ''notes.txt''], File ''n''),
              ([''in'', ''sub''], Dir), ([''in'', ''sub'', ''c.pdf''], File ''C'')],
      cwd = Map.empty, cwd_writable = True, flavour = Posix,
      stdout_encodes = (\<lambda>n e. encodable n),
      console = [], submitted = [], completed = []\<rparr>"

definition good_result :: pipe_result where
  "good_result =
     \<lparr>draw_layout_out = Inr ''L'', draw_span_out = Inr ''S'', dump_md_out = Inr ''M'',
      dump_content_list_out = Inr ''C'', dump_middle_json_out = Inr ''J''\<rparr>"

definition good_infer :: infer_result where
  "good_infer =
     \<lparr>pipe_ocr_mode_out = Inr ([(''i.jpg'', ''I'')], good_result),
      pipe_txt_mode_out = Inr ([], good_result)\<rparr>"

definition good_dataset :: dataset where
  "good_dataset = \<lparr>classify_out = Inr TXT, apply_doc_analyze_out = (\<lambda>ocr. Inr good_infer)\<rparr>"

definition good_pipeline :: pipeline where
  "good_pipeline b = Inr good_dataset"

definition picky_pipeline :: pipeline where
  "picky_pipeline b = (if b = ''B'' then Inl (PipelineError ''bad xref'') else Inr good_dataset)"

definition interrupted_pipeline :: pipeline where
  "interrupted_pipeline b = Inl KeyboardInterrupt"

definition exiting_pipeline :: pipeline where
  "exiting_pipeline b = (if b = ''B'' then Inl SystemExit else Inr good_dataset)"

text \<open>
  The same directory on Windows, with names in capitals; and a directory on a POSIX
  system with one document whose name is the bytes \<open>0xFF\<close>, \<^verbatim>\<open>.pdf\<close>, which are not
  UTF-8, beside a ledger that names \<^verbatim>\<open>old.pdf\<close>.
\<close>

definition windows_world :: world where
  "windows_world =
     \<lparr>tree = [([''in''], Dir), ([''in'', ''A.PDF''], File ''A''),
              ([''in'', ''b.Pdf''], File ''B''), ([''in'', ''NOTES.TXT''], File ''n''),
              ([''in'', ''SUB''], Dir), ([''in'', ''SUB'', ''C.PDF''], File ''C'')],
      cwd = Map.empty, cwd_writable = True, flavour = Windows,
      stdout_encodes = (\<lambda>n e. encodable n),
      console = [], submitted = [], completed = []\<rparr>"

definition raw_name :: string where
  "raw_name = CHR 0xFF # ''.pdf''"

definition raw_name_world :: world where
  "raw_name_world =
     \<lparr>tree = [([''in''], Dir), ([''in'', raw_name], File ''B'')],
      cwd = [PROCESSED_LOG_PATH \<mapsto> Names [''old.pdf'']], cwd_writable = True,
      flavour = Posix, stdout_encodes = (\<lambda>n e. encodable n),
      console = [], submitted = [], completed = []\<rparr>"

section \<open>The ledger\<close>

lemma list_all_sorted_list_of_set:
  "finite S \<Longrightarrow> list_all P (sorted_list_of_set S) \<longleftrightarrow> (\<forall>n\<in>S. P n)"
  by (simp add: list_all_iff)

lemma save_processed_files_written:
  "save_processed_files S w = (Inr u, w') \<Longrightarrow>
     cwd_writable w \<and> list_all encodable (sorted_list_of_set S) \<and>
     w' = w\<lparr>cwd := (cwd w)(PROCESSED_LOG_PATH \<mapsto> Names (sorted_list_of_set S))\<rparr>"
  by (auto simp: save_processed_files_def split: if_splits)

lemma load_after_save:
  "finite S \<Longrightarrow> cwd_writable w \<Longrightarrow> \<forall>n\<in>S. encodable n \<Longrightarrow>
     load_processed_files (snd (save_processed_files S w)) = Inr S"
  by (simp add: save_processed_files_def load_processed_files_def json_load_def
      list_all_sorted_list_of_set)

lemma save_twice:
  "cwd_writable w \<Longrightarrow> list_all encodable (sorted_list_of_set S) \<Longrightarrow>
     save_processed_files S (snd (save_processed_files S w))
       = (Inr (), snd (save_processed_files S w))"
  by (simp add: save_processed_files_def)

lemma load_of_saved:
  "finite A \<Longrightarrow> cwd w PROCESSED_LOG_PATH = Some (Names (sorted_list_of_set A)) \<Longrightarrow>
     load_processed_files w = Inr A"
  by (simp add: load_processed_files_def json_load_def)

text \<open>
  For names that are UTF-8 the ledger is read back as it was written: for every finite
  set \<open>S\<close> of such names and a writable working directory, saving \<open>S\<close> succeeds and
  loading afterwards gives \<open>S\<close> back; saving what was loaded leaves the file as it is;
  and the file is an array that is sorted ascending, has no duplicates and holds exactly
  the elements of \<open>S\<close>.
\<close>

lemma round_trip_of_utf8_names:
  assumes "finite S" and "cwd_writable w" and "\<forall>n\<in>S. encodable n"
  shows "fst (save_processed_files S w) = Inr () \<and>
         load_processed_files (snd (save_processed_files S w)) = Inr S \<and>
         (\<forall>T. load_processed_files (snd (save_processed_files S w)) = Inr T \<longrightarrow>
              snd (save_processed_files T (snd (save_processed_files S w)))
                = snd (save_processed_files S w)) \<and>
         (\<exists>xs. cwd (snd (save_processed_files S w)) PROCESSED_LOG_PATH = Some (Names xs) \<and>
               sorted xs \<and> distinct xs \<and> set xs = S)"
proof -
  let ?w' = "snd (save_processed_files S w)"
  have enc: "list_all encodable (sorted_list_of_set S)"
    using assms(1,3) by (simp add: list_all_sorted_list_of_set)
  have saved: "fst (save_processed_files S w) = Inr ()"
    using assms(2) enc by (simp add: save_processed_files_def)
  have loaded: "load_processed_files ?w' = Inr S"
    using assms by (rule load_after_save)
  have again: "\<forall>T. load_processed_files ?w' = Inr T \<longrightarrow>
      snd (save_processed_files T ?w') = ?w'"
    using assms(2) enc loaded by (simp add: save_twice)
  have content: "cwd ?w' PROCESSED_LOG_PATH = Some (Names (sorted_list_of_set S))"
    using assms(2) enc by (simp add: save_processed_files_def)
  have "sorted (sorted_list_of_set S)" "distinct (sorted_list_of_set S)"
    "set (sorted_list_of_set S) = S"
    using assms(1) by simp_all
  with content have "\<exists>xs. cwd ?w' PROCESSED_LOG_PATH = Some (Names xs) \<and>
      sorted xs \<and> distinct xs \<and> set xs = S"
    by blast
  with saved loaded again show ?thesis by blast
qed

text \<open>
  Claim C4 says that saving and then loading reproduces every set of file names, and
  that every file \<^verbatim>\<open>save_processed_files\<close> writes is a sorted array. The code does not do
  that for a set that holds a name which is not UTF-8, such as the one \<^verbatim>\<open>Path.glob\<close>
  yields for a file named by the bytes \<open>0xFF\<close>, \<^verbatim>\<open>.pdf\<close>: for the set of \<^verbatim>\<open>a.pdf\<close> and that
  name, \<^verbatim>\<open>save_processed_files\<close> raises \<^verbatim>\<open>UnicodeEncodeError\<close>, the file it leaves is no
  array, and \<^verbatim>\<open>load_processed_files\<close> raises on it instead of returning the set.
\<close>

theorem save_cuts_ledger_short:
  "fst (save_processed_files {''a.pdf'', raw_name} example_world) = Inl UnicodeEncodeError \<and>
   cwd (snd (save_processed_files {''a.pdf'', raw_name} example_world)) PROCESSED_LOG_PATH
     = Some Corrupt \<and>
   load_processed_files (snd (save_processed_files {''a.pdf'', raw_name} example_world))
     = Inl JSONDecodeError"
  by code_simp

section \<open>The worker and the loop\<close>

subsection \<open>One call of the worker, one turn of the loop\<close>

lemma success_tokens_simps [simp]:
  "success_tokens [] = []"
  "success_tokens ((t, Inl e) # L) = success_tokens L"
  "success_tokens ((t, Inr None) # L) = success_tokens L"
  "success_tokens ((t, Inr (Some r)) # L) = (if r = [] then success_tokens L else r # success_tokens L)"
  by (simp_all add: success_tokens_def)

lemma success_tokens_append [simp]:
  "success_tokens (L @ M) = success_tokens L @ success_tokens M"
  by (simp add: success_tokens_def)

lemma process_single_pdf_frame:
  assumes "process_single_pdf pl t w = (r, w')"
  shows "cwd w' = cwd w" "cwd_writable w' = cwd_writable w"
    "submitted w' = submitted w" "completed w' = completed w"
  using assms
  by (auto simp: process_single_pdf_def split: prod.splits sum.splits if_splits)

lemma process_single_pdf_result:
  assumes "process_single_pdf pl t w = (r, w')"
  shows "r = Inr (Some (name (fst t))) \<or> r = Inr None \<or> r = Inl UnicodeEncodeError \<or>
         (\<exists>e. r = Inl e \<and> \<not> is_Exception e)"
  using assms
  by (auto simp: process_single_pdf_def split: prod.splits sum.splits if_splits)

lemma process_single_pdf_console:
  assumes "process_single_pdf pl t w = (r, w')"
  shows "if r = Inr None then \<exists>e. is_Exception e \<and> console w' = console w @ [Failed_line (name (fst t)) e]
         else console w' = console w"
  using assms
  by (auto simp: process_single_pdf_def split: prod.splits sum.splits if_splits)

lemma handle_result_frame:
  assumes "handle_result result acc w = (r, w')"
  shows "tree w' = tree w" "cwd_writable w' = cwd_writable w"
    "submitted w' = submitted w" "completed w' = completed w" "console w' = console w"
  using assms
  by (auto simp: handle_result_def save_processed_files_def
      split: prod.splits sum.splits if_splits option.splits)

lemma pool_loop_frame:
  "pool_loop pl ts acc w = (r, w') \<Longrightarrow>
     cwd_writable w' = cwd_writable w \<and> submitted w' = submitted w"
proof (induction ts arbitrary: acc w)
  case Nil
  then show ?case by simp
next
  case (Cons t ts)
  obtain r1 w1 where w1: "process_single_pdf pl t w = (r1, w1)"
    by (cases "process_single_pdf pl t w")
  note f1 = process_single_pdf_frame [OF w1]
  show ?case
  proof (cases r1)
    case (Inl e)
    with Cons.prems w1 f1 show ?thesis by auto
  next
    case (Inr result)
    let ?w1 = "w1\<lparr>completed := completed w1 @ [(t, Inr result)]\<rparr>"
    obtain r2 w2 where w2: "handle_result result acc ?w1 = (r2, w2)"
      by (cases "handle_result result acc ?w1")
    note f2 = handle_result_frame [OF w2]
    show ?thesis
    proof (cases r2)
      case (Inl e)
      with Cons.prems w1 Inr w2 f1 f2 show ?thesis by auto
    next
      case (Inr acc')
      with Cons.prems w1 \<open>r1 = Inr result\<close> w2 have "pool_loop pl ts acc' w2 = (r, w')"
        by simp
      from Cons.IH [OF this] f1 f2 show ?thesis by simp
    qed
  qed
qed

lemma pool_loop_append:
  "pool_loop pl (xs @ ys) acc w =
     (case pool_loop pl xs acc w of
        (Inl e, w') \<Rightarrow> (Inl e, w')
      | (Inr acc', w') \<Rightarrow> pool_loop pl ys acc' w')"
  by (induction xs arbitrary: acc w) (auto split: prod.splits sum.splits)

lemma handle_result_eq:
  "handle_result result (pf, sf) w =
     (case result of
        None \<Rightarrow> (Inr (pf, sf), w)
      | Some n \<Rightarrow>
          if n = [] then (Inr (pf, sf), w)
          else if \<not> cwd_writable w then (Inl PermissionError, w)
          else if list_all encodable (sorted_list_of_set (insert n pf))
          then (Inr (insert n pf, sf @ [n]),
                w\<lparr>cwd := (cwd w)(PROCESSED_LOG_PATH \<mapsto> Names (sorted_list_of_set (insert n pf)))\<rparr>)
          else (Inl UnicodeEncodeError, w\<lparr>cwd := (cwd w)(PROCESSED_LOG_PATH \<mapsto> Corrupt)\<rparr>))"
  by (simp add: handle_result_def save_processed_files_def split: option.splits)

lemma pool_loop_Cons_elim:
  assumes "pool_loop pl (t # ts) acc w = (r, w')"
  obtains
    (escaped) e w1 where "process_single_pdf pl t w = (Inl e, w1)" "r = Inl e"
      "w' = w1\<lparr>completed := completed w1 @ [(t, Inl e)]\<rparr>"
  | (stopped) result w1 e where "process_single_pdf pl t w = (Inr result, w1)"
      "handle_result result acc (w1\<lparr>completed := completed w1 @ [(t, Inr result)]\<rparr>) = (Inl e, w')"
      "r = Inl e"
  | (continued) result w1 acc' w2 where "process_single_pdf pl t w = (Inr result, w1)"
      "handle_result result acc (w1\<lparr>completed := completed w1 @ [(t, Inr result)]\<rparr>) = (Inr acc', w2)"
      "pool_loop pl ts acc' w2 = (r, w')"
  using assms by (auto split: prod.splits sum.splits)

lemma pool_loop_log:
  "pool_loop pl ts acc w = (r, w') \<Longrightarrow>
     \<exists>L. completed w' = completed w @ L \<and> map fst L = take (length L) ts \<and>
         (\<forall>x\<in>set L. outcome_ok x)"
proof (induction ts arbitrary: acc w)
  case Nil
  then show ?case by simp
next
  case (Cons t ts)
  from Cons.prems show ?case
  proof (cases rule: pool_loop_Cons_elim)
    case (escaped e w1)
    from process_single_pdf_result [OF escaped(1)] have "outcome_ok (t, Inl e)"
      by (auto simp: outcome_ok_def)
    moreover have "completed w' = completed w @ [(t, Inl e)]"
      using escaped process_single_pdf_frame(4) [OF escaped(1)] by simp
    ultimately show ?thesis
      by (intro exI [of _ "[(t, Inl e)]"]) simp
  next
    case (stopped result w1 e)
    from process_single_pdf_result [OF stopped(1)] have "outcome_ok (t, Inr result)"
      by (auto simp: outcome_ok_def)
    moreover have "completed w' = completed w @ [(t, Inr result)]"
      using handle_result_frame(4) [OF stopped(2)] process_single_pdf_frame(4) [OF stopped(1)]
      by simp
    ultimately show ?thesis
      by (intro exI [of _ "[(t, Inr result)]"]) simp
  next
    case (continued result w1 acc' w2)
    from process_single_pdf_result [OF continued(1)] have ok: "outcome_ok (t, Inr result)"
      by (auto simp: outcome_ok_def)
    have c2: "completed w2 = completed w @ [(t, Inr result)]"
      using handle_result_frame(4) [OF continued(2)] process_single_pdf_frame(4) [OF continued(1)]
      by simp
    from Cons.IH [OF continued(3)] obtain L where
      L: "completed w' = completed w2 @ L" "map fst L = take (length L) ts"
         "\<forall>x\<in>set L. outcome_ok x"
      by blast
    show ?thesis
      using L c2 ok by (intro exI [of _ "(t, Inr result) # L"]) simp
  qed
qed

lemma pool_loop_done:
  "pool_loop pl ts (pf, sf) w = (Inr (pf', sf'), w') \<Longrightarrow>
     \<exists>L. completed w' = completed w @ L \<and> map fst L = ts \<and>
         (\<forall>x\<in>set L. snd x = Inr (Some (name (fst (fst x)))) \<or> snd x = Inr None) \<and>
         sf' = sf @ success_tokens L \<and> pf' = pf \<union> set (success_tokens L)"
proof (induction ts arbitrary: pf sf w)
  case Nil
  then show ?case by simp
next
  case (Cons t ts)
  from Cons.prems show ?case
  proof (cases rule: pool_loop_Cons_elim)
    case (continued result w1 acc' w2)
    obtain pf2 sf2 where acc': "acc' = (pf2, sf2)" by (cases acc')
    from process_single_pdf_result [OF continued(1)]
    have ok: "result = Some (name (fst t)) \<or> result = None"
      by auto
    have c2: "completed w2 = completed w @ [(t, Inr result)]"
      using handle_result_frame(4) [OF continued(2)] process_single_pdf_frame(4) [OF continued(1)]
      by simp
    have step: "sf2 = sf @ success_tokens [(t, Inr result)]"
      "pf2 = pf \<union> set (success_tokens [(t, Inr result)])"
      using continued(2) unfolding acc' handle_result_eq
      by (auto split: option.splits if_splits)
    from Cons.IH [OF continued(3) [unfolded acc']] obtain L where
      L: "completed w' = completed w2 @ L" "map fst L = ts"
         "\<forall>x\<in>set L. snd x = Inr (Some (name (fst (fst x)))) \<or> snd x = Inr None"
         "sf' = sf2 @ success_tokens L" "pf' = pf2 \<union> set (success_tokens L)"
      by blast
    have "success_tokens ((t, Inr result) # L) = success_tokens [(t, Inr result)] @ success_tokens L"
      using success_tokens_append [of "[(t, Inr result)]" L] by simp
    then show ?thesis
      using L c2 ok step
      by (intro exI [of _ "(t, Inr result) # L"]) (auto simp del: success_tokens_simps)
  qed simp_all
qed

lemma pool_loop_raised:
  "cwd_writable w \<Longrightarrow> pool_loop pl ts (pf, sf) w = (Inl e, w') \<Longrightarrow>
   completed w' = completed w @ L \<Longrightarrow> finite pf \<Longrightarrow>
   \<forall>n\<in>pf \<union> set (success_tokens L). encodable n \<Longrightarrow>
     \<exists>L' t. L = L' @ [(t, Inl e)]"
proof (induction ts arbitrary: pf sf w L)
  case Nil
  then show ?case by simp
next
  case (Cons t ts)
  from Cons.prems(2) show ?case
  proof (cases rule: pool_loop_Cons_elim)
    case (escaped e' w1)
    then have "completed w' = completed w @ [(t, Inl e)]"
      using process_single_pdf_frame(4) [OF escaped(1)] by simp
    with Cons.prems(3) have "L = [] @ [(t, Inl e)]" by simp
    then show ?thesis by blast
  next
    case (stopped result w1 e')
    let ?w1 = "w1\<lparr>completed := completed w1 @ [(t, Inr result)]\<rparr>"
    have wr1: "cwd_writable ?w1"
      using Cons.prems(1) process_single_pdf_frame(2) [OF stopped(1)] by simp
    have "completed w' = completed w @ [(t, Inr result)]"
      using handle_result_frame(4) [OF stopped(2)] process_single_pdf_frame(4) [OF stopped(1)]
      by simp
    with Cons.prems(3) have L: "L = [(t, Inr result)]" by simp
    from stopped(2) wr1 obtain n where n: "result = Some n" "n \<noteq> []"
      "\<not> list_all encodable (sorted_list_of_set (insert n pf))"
      unfolding handle_result_eq by (auto split: option.splits if_splits)
    from n(1,2) L have "n \<in> set (success_tokens L)" by simp
    with Cons.prems(5) have "\<forall>m\<in>insert n pf. encodable m" by auto
    moreover have "finite (insert n pf)" using Cons.prems(4) by simp
    ultimately have "list_all encodable (sorted_list_of_set (insert n pf))"
      by (simp only: list_all_sorted_list_of_set)
    with n(3) show ?thesis by simp
  next
    case (continued result w1 acc' w2)
    obtain pf2 sf2 where acc': "acc' = (pf2, sf2)" by (cases acc')
    have wr: "cwd_writable w2"
      using Cons.prems(1) process_single_pdf_frame(2) [OF continued(1)]
        handle_result_frame(2) [OF continued(2)] by simp
    have c2: "completed w2 = completed w @ [(t, Inr result)]"
      using handle_result_frame(4) [OF continued(2)] process_single_pdf_frame(4) [OF continued(1)]
      by simp
    obtain L2 where L2: "L = (t, Inr result) # L2" "completed w' = completed w2 @ L2"
      using pool_loop_log [OF continued(3)] c2 Cons.prems(3) by auto
    have step: "pf2 = pf \<union> set (success_tokens [(t, Inr result)])"
      using continued(2) unfolding acc' handle_result_eq
      by (auto split: option.splits if_splits)
    have tok: "success_tokens L = success_tokens [(t, Inr result)] @ success_tokens L2"
      unfolding L2(1) using success_tokens_append [of "[(t, Inr result)]" L2] by simp
    have fin2: "finite pf2" using step Cons.prems(4) by simp
    have enc2: "\<forall>n\<in>pf2 \<union> set (success_tokens L2). encodable n"
      using Cons.prems(5) unfolding step tok by auto
    from Cons.IH [OF wr continued(3) [unfolded acc'] L2(2) fin2 enc2] obtain L' u where
      "L2 = L' @ [(u, Inl e)]" by blast
    with L2(1) have "L = ((t, Inr result) # L') @ [(u, Inl e)]" by simp
    then show ?thesis by blast
  qed
qed

lemma pool_loop_ledger:
  "pool_loop pl ts (pf, sf) w = (Inr acc, w') \<Longrightarrow> completed w' = completed w @ L \<Longrightarrow>
     cwd w' =
       (if success_tokens L = [] then cwd w
        else (cwd w)(PROCESSED_LOG_PATH \<mapsto>
               Names (sorted_list_of_set (pf \<union> set (success_tokens L)))))"
proof (induction ts arbitrary: pf sf w L)
  case Nil
  then show ?case by simp
next
  case (Cons t ts)
  from Cons.prems(1) show ?case
  proof (cases rule: pool_loop_Cons_elim)
    case (continued result w1 acc' w2)
    obtain pf2 sf2 where acc': "acc' = (pf2, sf2)" by (cases acc')
    let ?w1 = "w1\<lparr>completed := completed w1 @ [(t, Inr result)]\<rparr>"
    have cwd1: "cwd ?w1 = cwd w"
      using process_single_pdf_frame [OF continued(1)] by simp
    have c2: "completed w2 = completed w @ [(t, Inr result)]"
      using handle_result_frame(4) [OF continued(2)] process_single_pdf_frame(4) [OF continued(1)]
      by simp
    obtain L' where L': "L = (t, Inr result) # L'" "completed w' = completed w2 @ L'"
      using pool_loop_log [OF continued(3)] c2 Cons.prems(2) by auto
    have step: "pf2 = pf \<union> set (success_tokens [(t, Inr result)])"
      "cwd w2 = (if success_tokens [(t, Inr result)] = [] then cwd w
                 else (cwd w)(PROCESSED_LOG_PATH \<mapsto> Names (sorted_list_of_set pf2)))"
      using continued(2) cwd1 unfolding acc' handle_result_eq
      by (auto split: option.splits if_splits)
    have IH: "cwd w' =
       (if success_tokens L' = [] then cwd w2
        else (cwd w2)(PROCESSED_LOG_PATH \<mapsto>
               Names (sorted_list_of_set (pf2 \<union> set (success_tokens L')))))"
      using Cons.IH [OF continued(3) [unfolded acc'] L'(2)] .
    have tok: "success_tokens L = success_tokens [(t, Inr result)] @ success_tokens L'"
      unfolding L'(1) using success_tokens_append [of "[(t, Inr result)]" L'] by simp
    show ?thesis
    proof (cases "success_tokens [(t, Inr result)] = []")
      case True
      with IH tok step show ?thesis by simp
    next
      case False
      show ?thesis
      proof (cases "success_tokens L' = []")
        case True
        with False IH tok step show ?thesis by simp
      next
        case nonempty: False
        with False IH tok step show ?thesis by (simp add: Un_assoc)
      qed
    qed
  qed simp_all
qed

lemma pool_loop_console:
  "pool_loop pl ts acc w = (r, w') \<Longrightarrow> completed w' = completed w @ L \<Longrightarrow>
     \<exists>C. console w' = console w @ C \<and>
         (\<forall>x\<in>set L. snd x = Inr None \<longrightarrow>
            (\<exists>e. is_Exception e \<and> Failed_line (name (fst (fst x))) e \<in> set C))"
proof (induction ts arbitrary: acc w L)
  case Nil
  then show ?case by simp
next
  case (Cons t ts)
  from Cons.prems(1) show ?case
  proof (cases rule: pool_loop_Cons_elim)
    case (escaped e w1)
    then have "completed w' = completed w @ [(t, Inl e)]" and same: "console w' = console w"
      using process_single_pdf_frame [OF escaped(1)] process_single_pdf_console [OF escaped(1)]
      by simp_all
    with Cons.prems(2) have "L = [(t, Inl e)]" by simp
    with same show ?thesis by simp
  next
    case (stopped result w1 e)
    have L: "L = [(t, Inr result)]"
      using handle_result_frame(4) [OF stopped(2)] process_single_pdf_frame(4) [OF stopped(1)]
        Cons.prems(2) by simp
    have "console w' = console w1"
      using handle_result_frame(5) [OF stopped(2)] by simp
    with process_single_pdf_console [OF stopped(1)] L show ?thesis
      by (cases "result = None") auto
  next
    case (continued result w1 acc' w2)
    have c2: "completed w2 = completed w @ [(t, Inr result)]"
      using handle_result_frame(4) [OF continued(2)] process_single_pdf_frame(4) [OF continued(1)]
      by simp
    obtain L' where L': "L = (t, Inr result) # L'" "completed w' = completed w2 @ L'"
      using pool_loop_log [OF continued(3)] c2 Cons.prems(2) by auto
    have "console w2 = console w1"
      using handle_result_frame(5) [OF continued(2)] by simp
    with process_single_pdf_console [OF continued(1)]
    obtain C1 where C1: "console w2 = console w @ C1"
      "result = None \<longrightarrow> (\<exists>e. is_Exception e \<and> Failed_line (name (fst t)) e \<in> set C1)"
      by (cases "result = None") auto
    from Cons.IH [OF continued(3) L'(2)] obtain C where
      C: "console w' = console w2 @ C"
      "\<forall>x\<in>set L'. snd x = Inr None \<longrightarrow>
            (\<exists>e. is_Exception e \<and> Failed_line (name (fst (fst x))) e \<in> set C)"
      by blast
    show ?thesis
      using C C1 L'(1) by (intro exI [of _ "C1 @ C"]) auto
  qed
qed

subsection \<open>The pattern of the enumeration\<close>

lemma fnmatch_literal:
  "CHR ''*'' \<notin> set ps \<Longrightarrow> CHR ''?'' \<notin> set ps \<Longrightarrow> fnmatch n ps \<longleftrightarrow> n = ps"
  by (induction n ps rule: fnmatch.induct) auto

lemma fnmatch_star:
  "fnmatch n (CHR ''*'' # ps) \<longleftrightarrow> (\<exists>a b. n = a @ b \<and> fnmatch b ps)"
proof (induction n)
  case Nil
  then show ?case by (cases ps) auto
next
  case (Cons c cs)
  have "fnmatch (c # cs) (CHR ''*'' # ps) \<longleftrightarrow>
      fnmatch (c # cs) ps \<or> fnmatch cs (CHR ''*'' # ps)"
    by simp
  also have "\<dots> \<longleftrightarrow> fnmatch (c # cs) ps \<or> (\<exists>a b. cs = a @ b \<and> fnmatch b ps)"
    using Cons.IH by simp
  also have "\<dots> \<longleftrightarrow> (\<exists>a b. c # cs = a @ b \<and> fnmatch b ps)"
  proof
    assume "fnmatch (c # cs) ps \<or> (\<exists>a b. cs = a @ b \<and> fnmatch b ps)"
    then show "\<exists>a b. c # cs = a @ b \<and> fnmatch b ps"
    proof
      assume "fnmatch (c # cs) ps"
      then have "c # cs = [] @ (c # cs) \<and> fnmatch (c # cs) ps" by simp
      then show ?thesis by blast
    next
      assume "\<exists>a b. cs = a @ b \<and> fnmatch b ps"
      then obtain a b where "cs = a @ b" "fnmatch b ps" by blast
      then have "c # cs = (c # a) @ b \<and> fnmatch b ps" by simp
      then show ?thesis by blast
    qed
  next
    assume "\<exists>a b. c # cs = a @ b \<and> fnmatch b ps"
    then obtain a b where ab: "c # cs = a @ b" "fnmatch b ps" by blast
    show "fnmatch (c # cs) ps \<or> (\<exists>a b. cs = a @ b \<and> fnmatch b ps)"
    proof (cases a)
      case Nil
      with ab show ?thesis by simp
    next
      case (Cons x xs)
      with ab have "cs = xs @ b" by simp
      with ab(2) show ?thesis by blast
    qed
  qed
  finally show ?case .
qed

lemma fnmatch_pdf: "fnmatch n ''*.pdf'' \<longleftrightarrow> (\<exists>b. n = b @ ''.pdf'')"
proof -
  have "fnmatch n ''*.pdf'' \<longleftrightarrow> (\<exists>a b. n = a @ b \<and> fnmatch b ''.pdf'')"
    by (rule fnmatch_star)
  also have "\<dots> \<longleftrightarrow> (\<exists>a b. n = a @ b \<and> b = ''.pdf'')"
    by (simp add: fnmatch_literal)
  finally show ?thesis by simp
qed

lemma lower_pdf_pattern: "map lower ''*.pdf'' = ''*.pdf''"
  by (simp add: lower_def)

lemma compile_pattern_pdf:
  "compile_pattern fl ''*.pdf'' n \<longleftrightarrow> (\<exists>b. normcase fl n = b @ ''.pdf'')"
proof (cases fl)
  case Posix
  then show ?thesis
    by (simp add: compile_pattern_def normcase_def fnmatch_pdf)
next
  case Windows
  then have "compile_pattern fl ''*.pdf'' n \<longleftrightarrow> fnmatch (map lower n) (map lower ''*.pdf'')"
    by (simp only: compile_pattern_def normcase_def flavour.case)
  also have "\<dots> \<longleftrightarrow> (\<exists>b. map lower n = b @ ''.pdf'')"
    unfolding lower_pdf_pattern by (rule fnmatch_pdf)
  finally show ?thesis
    using Windows by (simp only: normcase_def flavour.case)
qed

lemma glob_pdf_name: "p \<in> set (glob fl t d ''*.pdf'') \<Longrightarrow> name p \<noteq> []"
  by (cases fl) (auto simp: glob_def compile_pattern_pdf normcase_def split: if_splits)

subsection \<open>How a run starts\<close>

lemma load_processed_files_cong:
  "cwd w' = cwd w \<Longrightarrow> load_processed_files w' = load_processed_files w"
  by (simp add: load_processed_files_def)

lemma batch_not_started:
  assumes "fst (makedirs output_dir (tree w)) \<noteq> Inr () \<or> load_processed_files w \<noteq> Inr S \<or>
           max_workers < 1"
    and "load_processed_files w = Inr S \<or> (\<exists>e. load_processed_files w = Inl e)"
    and "batch pl picks pdf_dir output_dir max_workers w = (r, w')"
  shows "r \<noteq> None \<and> submitted w' = submitted w \<and> completed w' = completed w \<and> cwd w' = cwd w"
proof -
  obtain r1 t1 where mk: "makedirs output_dir (tree w) = (r1, t1)"
    by (cases "makedirs output_dir (tree w)")
  have ld: "load_processed_files (w\<lparr>tree := t1\<rparr>) = load_processed_files w"
    by (simp add: load_processed_files_def)
  show ?thesis
  proof (cases r1)
    case (Inl e)
    with mk assms(3) show ?thesis by (auto simp: batch_def)
  next
    case (Inr u)
    show ?thesis
    proof (cases "load_processed_files w")
      case (Inl e)
      with mk Inr ld assms(3) show ?thesis by (auto simp: batch_def Let_def)
    next
      case inr: (Inr S')
      with assms(1,2) mk Inr have "max_workers < 1" by auto
      with mk Inr ld inr assms(3) show ?thesis by (auto simp: batch_def Let_def)
    qed
  qed
qed

lemma batch_unfold:
  assumes "fst (makedirs output_dir (tree w)) = Inr ()"
    and "load_processed_files w = Inr S" and "1 \<le> max_workers"
  shows "batch pl picks pdf_dir output_dir max_workers w =
     (case pool_loop pl (completion_order picks (pending pdf_dir output_dir w S)) (S, [])
             (w\<lparr>tree := snd (makedirs output_dir (tree w)),
                console := console w @
                  [Found_line (length (enumerated pdf_dir output_dir w)) (card S)
                     (length (pending pdf_dir output_dir w S))],
                submitted := submitted w @ pending pdf_dir output_dir w S\<rparr>) of
        (Inl e, w3) \<Rightarrow> (Some e, w3)
      | (Inr (pf, sf), w3) \<Rightarrow>
          (case save_processed_files pf (w3\<lparr>console := console w3 @ [Done_line (length sf)]\<rparr>) of
             (Inl e, w4) \<Rightarrow> (Some e, w4)
           | (Inr u, w4) \<Rightarrow> (None, w4)))"
proof -
  obtain t1 where mk: "makedirs output_dir (tree w) = (Inr (), t1)"
    using assms(1) by (cases "makedirs output_dir (tree w)") auto
  have ld: "load_processed_files (w\<lparr>tree := t1\<rparr>) = Inr S"
    using assms(2) by (simp add: load_processed_files_def)
  show ?thesis
    using assms(3) mk ld
    by (simp add: batch_def Let_def enumerated_def pending_def)
qed

section \<open>The batch run\<close>

text \<open>
  The completion order is a rearrangement of the submitted tasks.
\<close>

lemma mset_completion_order: "mset (completion_order ks ts) = mset ts"
proof (induction ks arbitrary: ts)
  case Nil
  then show ?case by simp
next
  case (Cons k ks)
  show ?case
  proof (cases "ts = []")
    case True
    then show ?thesis by simp
  next
    case False
    let ?i = "k mod length ts"
    from False have i: "?i < length ts" by simp
    have "mset ts = mset (take ?i ts @ ts ! ?i # drop (Suc ?i) ts)"
      using id_take_nth_drop [OF i] by simp
    also have "\<dots> = add_mset (ts ! ?i) (mset (take ?i ts @ drop (Suc ?i) ts))"
      by simp
    finally show ?thesis
      using False Cons.IH [of "take ?i ts @ drop (Suc ?i) ts"] by simp
  qed
qed

text \<open>Every rearrangement of the submitted tasks is the completion order of some picks.\<close>

lemma completion_order_complete:
  "mset ys = mset ts \<Longrightarrow> \<exists>ks. completion_order ks ts = ys"
proof (induction ys arbitrary: ts)
  case Nil
  then have "ts = []" by simp
  then have "completion_order [] ts = []" by simp
  then show ?case by blast
next
  case (Cons y ys)
  then have "y \<in> set ts"
    by (metis list.set_intros(1) mset_eq_setD)
  then obtain i where i: "i < length ts" "ts ! i = y"
    by (auto simp: in_set_conv_nth)
  let ?rest = "take i ts @ drop (Suc i) ts"
  have "mset ts = add_mset y (mset ?rest)"
    using id_take_nth_drop [OF i(1)] i(2)
    by (metis add_mset_add_single mset.simps(2) mset_append union_mset_add_mset_right)
  with Cons.prems have "mset ys = mset ?rest" by simp
  from Cons.IH [OF this] obtain ks where ks: "completion_order ks ?rest = ys" by blast
  from i have "ts \<noteq> []" "i mod length ts = i" by auto
  with ks i(2) have "completion_order (i # ks) ts = y # ys" by simp
  then show ?case by blast
qed

lemma save_processed_files_frame:
  assumes "save_processed_files S w = (r, w')"
  shows "tree w' = tree w" "cwd_writable w' = cwd_writable w"
    "submitted w' = submitted w" "completed w' = completed w" "console w' = console w"
  using assms by (auto simp: save_processed_files_def split: if_splits)

lemma batch_started:
  assumes mk: "fst (makedirs output_dir (tree w)) = Inr ()"
    and ld: "load_processed_files w = Inr S" and n: "1 \<le> max_workers"
    and run: "batch pl picks pdf_dir output_dir max_workers w = (r, w')"
  shows "submitted w' = submitted w @ pending pdf_dir output_dir w S \<and>
         cwd_writable w' = cwd_writable w \<and>
         (\<exists>L. completed w' = completed w @ L \<and>
              map fst L = take (length L) (completion_order picks (pending pdf_dir output_dir w S)) \<and>
              (\<forall>x\<in>set L. outcome_ok x))"
proof -
  let ?ts = "completion_order picks (pending pdf_dir output_dir w S)"
  let ?w3 = "w\<lparr>tree := snd (makedirs output_dir (tree w)),
                console := console w @
                  [Found_line (length (enumerated pdf_dir output_dir w)) (card S)
                     (length (pending pdf_dir output_dir w S))],
                submitted := submitted w @ pending pdf_dir output_dir w S\<rparr>"
  obtain r3 w3 where loop: "pool_loop pl ?ts (S, []) ?w3 = (r3, w3)"
    by (cases "pool_loop pl ?ts (S, []) ?w3")
  from pool_loop_frame [OF loop] have f3: "cwd_writable w3 = cwd_writable w"
    "submitted w3 = submitted w @ pending pdf_dir output_dir w S"
    by simp_all
  from pool_loop_log [OF loop] obtain L where
    L: "completed w3 = completed w @ L" "map fst L = take (length L) ?ts"
       "\<forall>x\<in>set L. outcome_ok x"
    by auto
  have "submitted w' = submitted w3 \<and> cwd_writable w' = cwd_writable w3 \<and>
        completed w' = completed w3"
  proof (cases r3)
    case (Inl e)
    with run loop show ?thesis
      unfolding batch_unfold [OF mk ld n] by simp
  next
    case (Inr acc)
    obtain pf sf where acc: "acc = (pf, sf)" by (cases acc)
    let ?w4 = "w3\<lparr>console := console w3 @ [Done_line (length sf)]\<rparr>"
    obtain r5 w5 where sv: "save_processed_files pf ?w4 = (r5, w5)"
      by (cases "save_processed_files pf ?w4")
    from run loop Inr acc sv have "w' = w5"
      unfolding batch_unfold [OF mk ld n] by (cases r5) auto
    with save_processed_files_frame [OF sv] show ?thesis by simp
  qed
  with f3 L show ?thesis by auto
qed

lemma mset_take_subset: "mset (take k xs) \<subseteq># mset xs"
proof -
  have "mset xs = mset (take k xs) + mset (drop k xs)"
    by (metis append_take_drop_id mset_append)
  then show ?thesis by simp
qed

text \<open>
  Claim C6. When the output directory can be made, the ledger loads to \<open>S\<close> and the pool
  starts, the tasks that \<^verbatim>\<open>batch\<close> hands to the pool are, as a multiset, one task per
  enumerated path whose name is not in \<open>S\<close>, each paired with the output root; no
  submitted task names a file of \<open>S\<close>; and the worker runs on submitted tasks only, on
  each at most as often as it was submitted.
\<close>

theorem dispatch_filtering:
  assumes "fst (makedirs output_dir (tree w)) = Inr ()"
    and "load_processed_files w = Inr S" and "1 \<le> max_workers"
    and "batch pl picks pdf_dir output_dir max_workers w = (r, w')"
  shows "mset (run_tasks w w') =
           image_mset (\<lambda>p. (p, output_dir))
             (filter_mset (\<lambda>p. name p \<notin> S) (mset (enumerated pdf_dir output_dir w))) \<and>
         (\<forall>x\<in>set (run_tasks w w'). name (fst x) \<notin> S \<and> snd x = output_dir) \<and>
         mset (map fst (run_log w w')) \<subseteq># mset (run_tasks w w')"
proof -
  from batch_started [OF assms] obtain L where
    sub: "submitted w' = submitted w @ pending pdf_dir output_dir w S" and
    L: "completed w' = completed w @ L"
       "map fst L = take (length L) (completion_order picks (pending pdf_dir output_dir w S))"
    by blast
  have tasks: "run_tasks w w' = pending pdf_dir output_dir w S"
    using sub by (simp add: run_tasks_def)
  have log: "run_log w w' = L"
    using L(1) by (simp add: run_log_def)
  have one: "mset (run_tasks w w') =
           image_mset (\<lambda>p. (p, output_dir))
             (filter_mset (\<lambda>p. name p \<notin> S) (mset (enumerated pdf_dir output_dir w)))"
    unfolding tasks pending_def by simp
  have two: "\<forall>x\<in>set (run_tasks w w'). name (fst x) \<notin> S \<and> snd x = output_dir"
    unfolding tasks pending_def by auto
  have "mset (map fst L) \<subseteq># mset (completion_order picks (pending pdf_dir output_dir w S))"
    unfolding L(2) by (rule mset_take_subset)
  then have three: "mset (map fst (run_log w w')) \<subseteq># mset (run_tasks w w')"
    unfolding tasks log mset_completion_order .
  from one two three show ?thesis by blast
qed

theorem dispatch_filtering_witness:
  "fst (makedirs [''out''] (tree (example_world\<lparr>cwd := [PROCESSED_LOG_PATH \<mapsto> Names [''b.pdf'']]\<rparr>))) = Inr () \<and>
   load_processed_files (example_world\<lparr>cwd := [PROCESSED_LOG_PATH \<mapsto> Names [''b.pdf'']]\<rparr>) = Inr {''b.pdf''} \<and>
   (1::int) \<le> 2 \<and>
   run_tasks (example_world\<lparr>cwd := [PROCESSED_LOG_PATH \<mapsto> Names [''b.pdf'']]\<rparr>)
     (snd (batch good_pipeline [] [''in''] [''out''] 2
        (example_world\<lparr>cwd := [PROCESSED_LOG_PATH \<mapsto> Names [''b.pdf'']]\<rparr>)))
     = [([''in'', ''a.pdf''], [''out''])] \<and>
   mset (map fst (run_log (example_world\<lparr>cwd := [PROCESSED_LOG_PATH \<mapsto> Names [''b.pdf'']]\<rparr>)
     (snd (batch good_pipeline [] [''in''] [''out''] 2
        (example_world\<lparr>cwd := [PROCESSED_LOG_PATH \<mapsto> Names [''b.pdf'']]\<rparr>)))))
     \<subseteq># {#([''in'', ''a.pdf''], [''out''])#}"
proof -
  let ?w = "example_world\<lparr>cwd := [PROCESSED_LOG_PATH \<mapsto> Names [''b.pdf'']]\<rparr>"
  let ?w' = "snd (batch good_pipeline [] [''in''] [''out''] 2 ?w)"
  have mk: "fst (makedirs [''out''] (tree ?w)) = Inr ()"
    by code_simp
  have ld: "load_processed_files ?w = Inr {''b.pdf''}"
    by (simp add: load_processed_files_def json_load_def)
  have n: "(1::int) \<le> 2" by simp
  have run: "batch good_pipeline [] [''in''] [''out''] 2 ?w
    = (fst (batch good_pipeline [] [''in''] [''out''] 2 ?w), ?w')"
    by simp
  have tasks: "run_tasks ?w ?w' = [([''in'', ''a.pdf''], [''out''])]"
    by code_simp
  from dispatch_filtering [OF mk ld n run]
  have "mset (map fst (run_log ?w ?w')) \<subseteq># mset (run_tasks ?w ?w')"
    by blast
  then have "mset (map fst (run_log ?w ?w')) \<subseteq># {#([''in'', ''a.pdf''], [''out''])#}"
    unfolding tasks by simp
  with mk ld n tasks show ?thesis by blast
qed

lemma pool_loop_console_lines:
  "pool_loop pl ts acc w = (r, w') \<Longrightarrow>
     \<exists>C. console w' = console w @ C \<and> (\<forall>c\<in>set C. \<exists>n e. c = Failed_line n e)"
proof (induction ts arbitrary: acc w)
  case Nil
  then show ?case by simp
next
  case (Cons t ts)
  from Cons.prems(1) show ?case
  proof (cases rule: pool_loop_Cons_elim)
    case (escaped e w1)
    then have "console w' = console w"
      using process_single_pdf_console [OF escaped(1)] by simp
    then show ?thesis by simp
  next
    case (stopped result w1 e)
    have "console w' = console w1"
      using handle_result_frame(5) [OF stopped(2)] by simp
    with process_single_pdf_console [OF stopped(1)] show ?thesis
      by (cases "result = None") auto
  next
    case (continued result w1 acc' w2)
    have "console w2 = console w1"
      using handle_result_frame(5) [OF continued(2)] by simp
    with process_single_pdf_console [OF continued(1)]
    obtain C1 where C1: "console w2 = console w @ C1" "\<forall>c\<in>set C1. \<exists>n e. c = Failed_line n e"
      by (cases "result = None") auto
    from Cons.IH [OF continued(3)] obtain C where
      C: "console w' = console w2 @ C" "\<forall>c\<in>set C. \<exists>n e. c = Failed_line n e"
      by blast
    show ?thesis
      using C C1 by (intro exI [of _ "C1 @ C"]) auto
  qed
qed

lemma batch_console:
  assumes mk: "fst (makedirs output_dir (tree w)) = Inr ()"
    and ld: "load_processed_files w = Inr S"
    and run: "batch pl picks pdf_dir output_dir max_workers w = (r, w')"
  shows "\<exists>C. console w' = console w @
            Found_line (length (enumerated pdf_dir output_dir w)) (card S)
              (length (pending pdf_dir output_dir w S)) # C \<and>
           (\<forall>c\<in>set C. \<forall>i j k. c \<noteq> Found_line i j k)"
proof (cases "1 \<le> max_workers")
  case False
  obtain t1 where mk': "makedirs output_dir (tree w) = (Inr (), t1)"
    using mk by (cases "makedirs output_dir (tree w)") auto
  have ld': "load_processed_files (w\<lparr>tree := t1\<rparr>) = Inr S"
    using ld by (simp add: load_processed_files_def)
  from False run mk' ld' have
    "console w' = console w @
        [Found_line (length (enumerated pdf_dir output_dir w)) (card S)
           (length (pending pdf_dir output_dir w S))]"
    by (auto simp: batch_def Let_def enumerated_def pending_def)
  then show ?thesis by simp
next
  case n: True
  let ?ts = "completion_order picks (pending pdf_dir output_dir w S)"
  let ?found = "Found_line (length (enumerated pdf_dir output_dir w)) (card S)
                     (length (pending pdf_dir output_dir w S))"
  let ?w3 = "w\<lparr>tree := snd (makedirs output_dir (tree w)),
                console := console w @ [?found],
                submitted := submitted w @ pending pdf_dir output_dir w S\<rparr>"
  obtain r3 w3 where loop: "pool_loop pl ?ts (S, []) ?w3 = (r3, w3)"
    by (cases "pool_loop pl ?ts (S, []) ?w3")
  from pool_loop_console_lines [OF loop] obtain C where
    C: "console w3 = console w @ ?found # C" "\<forall>c\<in>set C. \<exists>n e. c = Failed_line n e"
    by auto
  show ?thesis
  proof (cases r3)
    case (Inl e)
    with run loop have "w' = w3"
      unfolding batch_unfold [OF mk ld n] by simp
    with C show ?thesis by auto
  next
    case (Inr acc)
    obtain pf sf where acc: "acc = (pf, sf)" by (cases acc)
    let ?w4 = "w3\<lparr>console := console w3 @ [Done_line (length sf)]\<rparr>"
    obtain r5 w5 where sv: "save_processed_files pf ?w4 = (r5, w5)"
      by (cases "save_processed_files pf ?w4")
    from run loop Inr acc sv have "w' = w5"
      unfolding batch_unfold [OF mk ld n] by (cases r5) auto
    with save_processed_files_frame(5) [OF sv] C(1)
    have "console w' = console w @ ?found # (C @ [Done_line (length sf)])"
      by simp
    moreover from C(2) have "\<forall>c\<in>set (C @ [Done_line (length sf)]). \<forall>i j k. c \<noteq> Found_line i j k"
      by auto
    ultimately show ?thesis by blast
  qed
qed

lemma batch_not_loaded:
  assumes "fst (makedirs output_dir (tree w)) \<noteq> Inr () \<or> (\<exists>e. load_processed_files w = Inl e)"
    and "batch pl picks pdf_dir output_dir max_workers w = (r, w')"
  shows "w' = w\<lparr>tree := snd (makedirs output_dir (tree w))\<rparr>"
proof -
  obtain r1 t1 where mk: "makedirs output_dir (tree w) = (r1, t1)"
    by (cases "makedirs output_dir (tree w)")
  have ld: "load_processed_files (w\<lparr>tree := t1\<rparr>) = load_processed_files w"
    by (simp add: load_processed_files_def)
  show ?thesis
  proof (cases r1)
    case (Inl e)
    with mk assms(2) show ?thesis by (auto simp: batch_def)
  next
    case (Inr u)
    with assms(1) mk obtain e where "load_processed_files w = Inl e" by auto
    with mk Inr ld assms(2) show ?thesis by (auto simp: batch_def Let_def)
  qed
qed

lemma glob_pdf_eq:
  "glob fl t d ''*.pdf'' =
     (if is_dir t d
      then [p \<leftarrow> map fst t. p \<noteq> [] \<and> parent p = d \<and> (\<exists>b. normcase fl (name p) = b @ ''.pdf'')]
      else [])"
  by (simp add: glob_def compile_pattern_pdf)

text \<open>
  Claim C10. What \<^verbatim>\<open>batch\<close> enumerates is exactly the list of entries directly inside
  the input directory whose name ends in \<^verbatim>\<open>.pdf\<close>, in scan order, where the ending is
  compared as the platform compares names: letter by letter on POSIX, without regard to
  case on Windows (\<^verbatim>\<open>A.PDF\<close> is enumerated there and not on POSIX). Every task the run
  submits, every call of the worker and the count it prints are about these entries
  alone. An entry of a subdirectory has another parent, and a name with another ending
  does not match, so neither is enumerated, dispatched or counted.
\<close>

theorem flat_pdf_enumeration:
  assumes "batch pl picks pdf_dir output_dir max_workers w = (r, w')"
  shows "enumerated pdf_dir output_dir w =
           (if is_dir (snd (makedirs output_dir (tree w))) pdf_dir
            then [p \<leftarrow> map fst (snd (makedirs output_dir (tree w))).
                    p \<noteq> [] \<and> parent p = pdf_dir \<and>
                    (\<exists>b. normcase (flavour w) (name p) = b @ ''.pdf'')]
            else []) \<and>
         (\<forall>x\<in>set (run_tasks w w'). fst x \<in> set (enumerated pdf_dir output_dir w)) \<and>
         (\<forall>x\<in>set (run_log w w'). fst (fst x) \<in> set (enumerated pdf_dir output_dir w)) \<and>
         (\<forall>i j k. Found_line i j k \<in> set (drop (length (console w)) (console w')) \<longrightarrow>
            i = length (enumerated pdf_dir output_dir w))"
proof -
  let ?E = "enumerated pdf_dir output_dir w"
  have listing: "?E =
           (if is_dir (snd (makedirs output_dir (tree w))) pdf_dir
            then [p \<leftarrow> map fst (snd (makedirs output_dir (tree w))).
                    p \<noteq> [] \<and> parent p = pdf_dir \<and>
                    (\<exists>b. normcase (flavour w) (name p) = b @ ''.pdf'')]
            else [])"
    unfolding enumerated_def by (rule glob_pdf_eq)
  have rest: "(\<forall>x\<in>set (run_tasks w w'). fst x \<in> set ?E) \<and>
         (\<forall>x\<in>set (run_log w w'). fst (fst x) \<in> set ?E) \<and>
         (\<forall>i j k. Found_line i j k \<in> set (drop (length (console w)) (console w')) \<longrightarrow>
            i = length ?E)"
  proof (cases "fst (makedirs output_dir (tree w)) \<noteq> Inr () \<or>
                (\<exists>e. load_processed_files w = Inl e)")
    case True
    from batch_not_loaded [OF True assms] show ?thesis
      by (simp add: run_tasks_def run_log_def)
  next
    case False
    then obtain S where mk: "fst (makedirs output_dir (tree w)) = Inr ()"
      and ld: "load_processed_files w = Inr S"
      by (cases "load_processed_files w") auto
    from batch_console [OF mk ld assms] obtain C where
      C: "console w' = console w @
            Found_line (length ?E) (card S) (length (pending pdf_dir output_dir w S)) # C"
         "\<forall>c\<in>set C. \<forall>i j k. c \<noteq> Found_line i j k"
      by blast
    have counted: "\<forall>i j k. Found_line i j k \<in> set (drop (length (console w)) (console w')) \<longrightarrow>
            i = length ?E"
      using C by auto
    have pend: "\<forall>x\<in>set (pending pdf_dir output_dir w S). fst x \<in> set ?E"
      by (auto simp: pending_def)
    show ?thesis
    proof (cases "1 \<le> max_workers")
      case True
      from batch_started [OF mk ld True assms] obtain L where
        sub: "submitted w' = submitted w @ pending pdf_dir output_dir w S" and
        L: "completed w' = completed w @ L"
          "map fst L = take (length L) (completion_order picks (pending pdf_dir output_dir w S))"
        by blast
      have "set (map fst L) \<subseteq> set (completion_order picks (pending pdf_dir output_dir w S))"
        unfolding L(2) by (rule set_take_subset)
      also have "\<dots> = set (pending pdf_dir output_dir w S)"
        using mset_completion_order [of picks "pending pdf_dir output_dir w S"]
        by (rule mset_eq_setD)
      finally have "\<forall>x\<in>set L. fst x \<in> set (pending pdf_dir output_dir w S)"
        by auto
      with pend sub L(1) counted show ?thesis
        by (simp add: run_tasks_def run_log_def)
    next
      case False
      then have "fst (makedirs output_dir (tree w)) \<noteq> Inr () \<or>
          load_processed_files w \<noteq> Inr S \<or> max_workers < 1"
        by simp
      from batch_not_started [OF this _ assms] ld counted show ?thesis
        by (simp add: run_tasks_def run_log_def)
    qed
  qed
  from listing rest show ?thesis by blast
qed

theorem flat_pdf_enumeration_witness:
  "enumerated [''in''] [''out''] example_world = [[''in'', ''a.pdf''], [''in'', ''b.pdf'']] \<and>
   [''in'', ''sub'', ''c.pdf''] \<in> fst ` set (tree example_world) \<and>
   [''in'', ''notes.txt''] \<in> fst ` set (tree example_world) \<and>
   fst ` set (run_tasks example_world
                (snd (batch picky_pipeline [1] [''in''] [''out''] 2 example_world)))
     \<subseteq> {[''in'', ''a.pdf''], [''in'', ''b.pdf'']} \<and>
   (fst \<circ> fst) ` set (run_log example_world
                (snd (batch picky_pipeline [1] [''in''] [''out''] 2 example_world)))
     \<subseteq> {[''in'', ''a.pdf''], [''in'', ''b.pdf'']} \<and>
   Found_line 2 0 2 \<in> set (console (snd (batch picky_pipeline [1] [''in''] [''out''] 2 example_world))) \<and>
   enumerated [''in''] [''out''] windows_world = [[''in'', ''A.PDF''], [''in'', ''b.Pdf'']] \<and>
   enumerated [''in''] [''out''] (windows_world\<lparr>flavour := Posix\<rparr>) = [] \<and>
   fst ` set (run_tasks windows_world
                (snd (batch good_pipeline [] [''in''] [''out''] 2 windows_world)))
     \<subseteq> {[''in'', ''A.PDF''], [''in'', ''b.Pdf'']} \<and>
   Found_line 2 0 2 \<in> set (console (snd (batch good_pipeline [] [''in''] [''out''] 2 windows_world)))"
proof -
  let ?w' = "snd (batch picky_pipeline [1] [''in''] [''out''] 2 example_world)"
  let ?v' = "snd (batch good_pipeline [] [''in''] [''out''] 2 windows_world)"
  have run: "batch picky_pipeline [1] [''in''] [''out''] 2 example_world
    = (fst (batch picky_pipeline [1] [''in''] [''out''] 2 example_world), ?w')"
    by simp
  have run_win: "batch good_pipeline [] [''in''] [''out''] 2 windows_world
    = (fst (batch good_pipeline [] [''in''] [''out''] 2 windows_world), ?v')"
    by simp
  have E: "enumerated [''in''] [''out''] example_world = [[''in'', ''a.pdf''], [''in'', ''b.pdf'']]"
    by code_simp
  have W: "enumerated [''in''] [''out''] windows_world = [[''in'', ''A.PDF''], [''in'', ''b.Pdf'']]"
    by code_simp
  have P: "enumerated [''in''] [''out''] (windows_world\<lparr>flavour := Posix\<rparr>) = []"
    by code_simp
  have tree: "[''in'', ''sub'', ''c.pdf''] \<in> fst ` set (tree example_world)"
    "[''in'', ''notes.txt''] \<in> fst ` set (tree example_world)"
    by (simp_all add: example_world_def)
  have found: "Found_line 2 0 2 \<in> set (console ?w')"
    by code_simp
  have found_win: "Found_line 2 0 2 \<in> set (console ?v')"
    by code_simp
  from flat_pdf_enumeration [OF run] have
    "(\<forall>x\<in>set (run_tasks example_world ?w').
        fst x \<in> set (enumerated [''in''] [''out''] example_world)) \<and>
     (\<forall>x\<in>set (run_log example_world ?w').
        fst (fst x) \<in> set (enumerated [''in''] [''out''] example_world))"
    by blast
  then have posix: "fst ` set (run_tasks example_world ?w') \<subseteq> {[''in'', ''a.pdf''], [''in'', ''b.pdf'']} \<and>
     (fst \<circ> fst) ` set (run_log example_world ?w') \<subseteq> {[''in'', ''a.pdf''], [''in'', ''b.pdf'']}"
    unfolding E by auto
  from flat_pdf_enumeration [OF run_win] have
    "\<forall>x\<in>set (run_tasks windows_world ?v').
        fst x \<in> set (enumerated [''in''] [''out''] windows_world)"
    by blast
  then have win: "fst ` set (run_tasks windows_world ?v') \<subseteq> {[''in'', ''A.PDF''], [''in'', ''b.Pdf'']}"
    unfolding W by auto
  from E tree found posix W P win found_win show ?thesis by blast
qed

lemma load_finite: "load_processed_files w = Inr S \<Longrightarrow> finite S"
  by (auto simp: load_processed_files_def json_load_def split: option.splits file_content.splits)

lemma batch_finished:
  assumes run: "batch pl picks pdf_dir output_dir max_workers w = (None, w')"
  shows "\<exists>S L. load_processed_files w = Inr S \<and> fst (makedirs output_dir (tree w)) = Inr () \<and>
           1 \<le> max_workers \<and> cwd_writable w \<and>
           completed w' = completed w @ L \<and>
           map fst L = completion_order picks (pending pdf_dir output_dir w S) \<and>
           (\<forall>x\<in>set L. snd x = Inr (Some (name (fst (fst x)))) \<or> snd x = Inr None) \<and>
           list_all encodable (sorted_list_of_set (S \<union> set (success_tokens L))) \<and>
           cwd w' = (cwd w)(PROCESSED_LOG_PATH \<mapsto>
                      Names (sorted_list_of_set (S \<union> set (success_tokens L))))"
proof -
  have mk: "fst (makedirs output_dir (tree w)) = Inr ()"
  proof -
    obtain r1 t1 where r1: "makedirs output_dir (tree w) = (r1, t1)"
      by (cases "makedirs output_dir (tree w)")
    show ?thesis
    proof (cases r1)
      case (Inl e)
      with r1 run show ?thesis by (simp add: batch_def)
    next
      case (Inr u)
      with r1 show ?thesis by simp
    qed
  qed
  obtain S where ld: "load_processed_files w = Inr S"
  proof (cases "load_processed_files w")
    case (Inl e)
    obtain t1 where "makedirs output_dir (tree w) = (Inr (), t1)"
      using mk by (cases "makedirs output_dir (tree w)") auto
    moreover have "load_processed_files (w\<lparr>tree := t1\<rparr>) = Inl e"
      using Inl by (simp add: load_processed_files_def)
    ultimately show ?thesis using run by (simp add: batch_def Let_def)
  next
    case (Inr S)
    then show ?thesis by (rule that)
  qed
  have n: "1 \<le> max_workers"
  proof (rule ccontr)
    assume "\<not> 1 \<le> max_workers"
    then have "fst (makedirs output_dir (tree w)) \<noteq> Inr () \<or>
        load_processed_files w \<noteq> Inr S \<or> max_workers < 1" by simp
    from batch_not_started [OF this _ run] ld show False by simp
  qed
  let ?ts = "completion_order picks (pending pdf_dir output_dir w S)"
  let ?w3 = "w\<lparr>tree := snd (makedirs output_dir (tree w)),
                console := console w @
                  [Found_line (length (enumerated pdf_dir output_dir w)) (card S)
                     (length (pending pdf_dir output_dir w S))],
                submitted := submitted w @ pending pdf_dir output_dir w S\<rparr>"
  obtain r3 w3 where loop: "pool_loop pl ?ts (S, []) ?w3 = (r3, w3)"
    by (cases "pool_loop pl ?ts (S, []) ?w3")
  from run loop obtain pf sf where r3: "r3 = Inr (pf, sf)"
    unfolding batch_unfold [OF mk ld n] by (cases r3) auto
  let ?w4 = "w3\<lparr>console := console w3 @ [Done_line (length sf)]\<rparr>"
  from run loop r3 have sv: "save_processed_files pf ?w4 = (Inr (), w')"
    unfolding batch_unfold [OF mk ld n]
    by (cases "save_processed_files pf ?w4") (auto split: sum.splits)
  from save_processed_files_written [OF this]
  have wr4: "cwd_writable ?w4" and enc: "list_all encodable (sorted_list_of_set pf)" and
    w': "cwd w' = (cwd w3)(PROCESSED_LOG_PATH \<mapsto> Names (sorted_list_of_set pf))"
    by simp_all
  have wr: "cwd_writable w"
    using wr4 pool_loop_frame [OF loop] by simp
  from pool_loop_done [OF loop [unfolded r3]] obtain L where
    L: "completed w3 = completed w @ L" "map fst L = ?ts"
       "\<forall>x\<in>set L. snd x = Inr (Some (name (fst (fst x)))) \<or> snd x = Inr None"
       "pf = S \<union> set (success_tokens L)"
    by auto
  have c3: "completed w3 = completed ?w3 @ L" using L(1) by simp
  have "cwd w3 =
       (if success_tokens L = [] then cwd w
        else (cwd w)(PROCESSED_LOG_PATH \<mapsto>
               Names (sorted_list_of_set (S \<union> set (success_tokens L)))))"
    using pool_loop_ledger [OF loop [unfolded r3] c3] by simp
  with w' L(4) have "cwd w' = (cwd w)(PROCESSED_LOG_PATH \<mapsto>
                      Names (sorted_list_of_set (S \<union> set (success_tokens L))))"
    by (cases "success_tokens L = []") simp_all
  moreover have "completed w' = completed w @ L"
    using save_processed_files_frame(4) [OF sv] L(1) by simp
  moreover have "list_all encodable (sorted_list_of_set (S \<union> set (success_tokens L)))"
    using enc unfolding L(4) .
  ultimately show ?thesis
    using ld mk n wr L(2,3) by blast
qed

text \<open>
  Claim C9. A run of \<^verbatim>\<open>batch\<close> that reaches its end has written the ledger file: the
  file then holds the sorted array of the loaded set and the tokens of this run. When
  no task was dispatched, or none succeeded, it holds the sorted array of the loaded
  set, so the file exists after every completed run, also when it did not exist before
  and the set is empty.
\<close>

theorem final_save:
  assumes "batch pl picks pdf_dir output_dir max_workers w = (None, w')"
  shows "\<exists>S. load_processed_files w = Inr S \<and>
           cwd w' PROCESSED_LOG_PATH =
             Some (Names (sorted_list_of_set (S \<union> set (success_tokens (run_log w w'))))) \<and>
           (run_tasks w w' = [] \<or> success_tokens (run_log w w') = [] \<longrightarrow>
              cwd w' PROCESSED_LOG_PATH = Some (Names (sorted_list_of_set S)))"
proof -
  from batch_finished [OF assms] obtain S L where
    ld: "load_processed_files w = Inr S" and
    mk: "fst (makedirs output_dir (tree w)) = Inr ()" and n: "1 \<le> max_workers" and
    L: "completed w' = completed w @ L"
       "map fst L = completion_order picks (pending pdf_dir output_dir w S)" and
    cwd: "cwd w' = (cwd w)(PROCESSED_LOG_PATH \<mapsto>
                      Names (sorted_list_of_set (S \<union> set (success_tokens L))))"
    by blast
  have log: "run_log w w' = L" using L(1) by (simp add: run_log_def)
  have content: "cwd w' PROCESSED_LOG_PATH =
             Some (Names (sorted_list_of_set (S \<union> set (success_tokens (run_log w w')))))"
    unfolding log cwd by simp
  have "run_tasks w w' = pending pdf_dir output_dir w S"
    using batch_started [OF mk ld n assms] by (simp add: run_tasks_def)
  moreover have "length L = length (pending pdf_dir output_dir w S)"
    using L(2) mset_completion_order [of picks "pending pdf_dir output_dir w S"]
    by (metis length_map size_mset)
  ultimately have "run_tasks w w' = [] \<Longrightarrow> L = []"
    by simp
  then have "run_tasks w w' = [] \<or> success_tokens (run_log w w') = [] \<Longrightarrow>
      success_tokens (run_log w w') = []"
    unfolding log by auto
  with content have "run_tasks w w' = [] \<or> success_tokens (run_log w w') = [] \<longrightarrow>
              cwd w' PROCESSED_LOG_PATH = Some (Names (sorted_list_of_set S))"
    by auto
  with ld content show ?thesis by blast
qed

theorem final_save_witness:
  "fst (batch good_pipeline [] [''nowhere''] [''out''] 2 example_world) = None \<and>
   cwd example_world PROCESSED_LOG_PATH = None \<and>
   run_tasks example_world (snd (batch good_pipeline [] [''nowhere''] [''out''] 2 example_world)) = [] \<and>
   cwd (snd (batch good_pipeline [] [''nowhere''] [''out''] 2 example_world)) PROCESSED_LOG_PATH
     = Some (Names [])"
proof -
  let ?b = "batch good_pipeline [] [''nowhere''] [''out''] 2 example_world"
  have r: "fst ?b = None" by code_simp
  then have run: "?b = (None, snd ?b)" by (simp add: prod_eq_iff)
  have none: "cwd example_world PROCESSED_LOG_PATH = None"
    by (simp add: example_world_def)
  then have ld: "load_processed_files example_world = Inr {}"
    by (simp add: load_processed_files_def)
  have tasks: "run_tasks example_world (snd ?b) = []" by code_simp
  from final_save [OF run] obtain S where
    S: "load_processed_files example_world = Inr S"
      "run_tasks example_world (snd ?b) = [] \<or>
         success_tokens (run_log example_world (snd ?b)) = [] \<longrightarrow>
       cwd (snd ?b) PROCESSED_LOG_PATH = Some (Names (sorted_list_of_set S))"
    by blast
  from S(1) ld have "S = {}" by simp
  with S(2) tasks have "cwd (snd ?b) PROCESSED_LOG_PATH = Some (Names [])"
    by simp
  with r none tasks show ?thesis by blast
qed

text \<open>
  Claim C7. \<^verbatim>\<open>load_processed_files\<close> returns the empty set when there is no ledger file,
  the set of the strings of the array when the file holds one, and raises what the open
  or the parse raises when the file is unreadable or corrupt. \<^verbatim>\<open>batch\<close> does not catch
  that exception: the run ends with it (or with the exception of \<^verbatim>\<open>os.makedirs\<close>
  before it), no task is submitted, no worker runs and the ledger file is untouched.
\<close>

theorem load_contract:
  "(cwd w PROCESSED_LOG_PATH = None \<longrightarrow> load_processed_files w = Inr {}) \<and>
   (\<forall>xs. cwd w PROCESSED_LOG_PATH = Some (Names xs) \<longrightarrow> load_processed_files w = Inr (set xs)) \<and>
   (cwd w PROCESSED_LOG_PATH = Some Unreadable \<longrightarrow> load_processed_files w = Inl PermissionError) \<and>
   (cwd w PROCESSED_LOG_PATH = Some Corrupt \<longrightarrow> load_processed_files w = Inl JSONDecodeError) \<and>
   (\<forall>e. load_processed_files w = Inl e \<longrightarrow>
      fst (batch pl picks pdf_dir output_dir max_workers w) \<noteq> None \<and>
      (fst (makedirs output_dir (tree w)) = Inr () \<longrightarrow>
         fst (batch pl picks pdf_dir output_dir max_workers w) = Some e) \<and>
      run_tasks w (snd (batch pl picks pdf_dir output_dir max_workers w)) = [] \<and>
      run_log w (snd (batch pl picks pdf_dir output_dir max_workers w)) = [] \<and>
      cwd (snd (batch pl picks pdf_dir output_dir max_workers w)) = cwd w)"
proof -
  let ?b = "batch pl picks pdf_dir output_dir max_workers w"
  have stop: "fst ?b \<noteq> None \<and>
      (fst (makedirs output_dir (tree w)) = Inr () \<longrightarrow> fst ?b = Some e) \<and>
      run_tasks w (snd ?b) = [] \<and> run_log w (snd ?b) = [] \<and> cwd (snd ?b) = cwd w"
    if bad: "load_processed_files w = Inl e" for e
  proof -
    have run: "?b = (fst ?b, snd ?b)" by simp
    from bad have "fst (makedirs output_dir (tree w)) \<noteq> Inr () \<or>
        (\<exists>e. load_processed_files w = Inl e)" by blast
    from batch_not_loaded [OF this run]
    have w': "snd ?b = w\<lparr>tree := snd (makedirs output_dir (tree w))\<rparr>" .
    have "fst ?b \<noteq> None"
      using batch_finished [of pl picks pdf_dir output_dir max_workers w "snd ?b"] bad
      by (cases "fst ?b") (auto simp: prod_eq_iff)
    moreover have "fst ?b = Some e" if mk: "fst (makedirs output_dir (tree w)) = Inr ()"
    proof -
      obtain t1 where "makedirs output_dir (tree w) = (Inr (), t1)"
        using mk by (cases "makedirs output_dir (tree w)") auto
      moreover have "load_processed_files (w\<lparr>tree := t1\<rparr>) = Inl e"
        using bad by (simp add: load_processed_files_def)
      ultimately show ?thesis by (simp add: batch_def Let_def)
    qed
    ultimately show ?thesis
      using w' by (simp add: run_tasks_def run_log_def)
  qed
  have "cwd w PROCESSED_LOG_PATH = None \<longrightarrow> load_processed_files w = Inr {}"
    "\<forall>xs. cwd w PROCESSED_LOG_PATH = Some (Names xs) \<longrightarrow> load_processed_files w = Inr (set xs)"
    "cwd w PROCESSED_LOG_PATH = Some Unreadable \<longrightarrow> load_processed_files w = Inl PermissionError"
    "cwd w PROCESSED_LOG_PATH = Some Corrupt \<longrightarrow> load_processed_files w = Inl JSONDecodeError"
    by (simp_all add: load_processed_files_def json_load_def)
  with stop show ?thesis by blast
qed

theorem load_contract_witness:
  "load_processed_files example_world = Inr {} \<and>
   load_processed_files
     (example_world\<lparr>cwd := [PROCESSED_LOG_PATH \<mapsto> Names [''b.pdf'', ''a.pdf'', ''b.pdf'']]\<rparr>)
     = Inr {''a.pdf'', ''b.pdf''} \<and>
   load_processed_files (example_world\<lparr>cwd := [PROCESSED_LOG_PATH \<mapsto> Unreadable]\<rparr>)
     = Inl PermissionError \<and>
   load_processed_files (example_world\<lparr>cwd := [PROCESSED_LOG_PATH \<mapsto> Corrupt]\<rparr>)
     = Inl JSONDecodeError \<and>
   fst (batch good_pipeline [] [''in''] [''out''] 2
          (example_world\<lparr>cwd := [PROCESSED_LOG_PATH \<mapsto> Corrupt]\<rparr>))
     = Some JSONDecodeError \<and>
   run_tasks (example_world\<lparr>cwd := [PROCESSED_LOG_PATH \<mapsto> Corrupt]\<rparr>)
     (snd (batch good_pipeline [] [''in''] [''out''] 2
          (example_world\<lparr>cwd := [PROCESSED_LOG_PATH \<mapsto> Corrupt]\<rparr>)))
     = []"
proof -
  let ?names = "example_world\<lparr>cwd := [PROCESSED_LOG_PATH \<mapsto> Names [''b.pdf'', ''a.pdf'', ''b.pdf'']]\<rparr>"
  let ?unreadable = "example_world\<lparr>cwd := [PROCESSED_LOG_PATH \<mapsto> Unreadable]\<rparr>"
  let ?corrupt = "example_world\<lparr>cwd := [PROCESSED_LOG_PATH \<mapsto> Corrupt]\<rparr>"
  have "cwd example_world PROCESSED_LOG_PATH = None"
    by (simp add: example_world_def)
  with load_contract [of example_world]
  have one: "load_processed_files example_world = Inr {}" by blast
  have "cwd ?names PROCESSED_LOG_PATH = Some (Names [''b.pdf'', ''a.pdf'', ''b.pdf''])"
    by simp
  with load_contract [of ?names]
  have "load_processed_files ?names = Inr (set [''b.pdf'', ''a.pdf'', ''b.pdf''])" by blast
  then have two: "load_processed_files ?names = Inr {''a.pdf'', ''b.pdf''}"
    by (simp add: insert_commute)
  have "cwd ?unreadable PROCESSED_LOG_PATH = Some Unreadable" by simp
  with load_contract [of ?unreadable]
  have three: "load_processed_files ?unreadable = Inl PermissionError" by blast
  have "cwd ?corrupt PROCESSED_LOG_PATH = Some Corrupt" by simp
  with load_contract [of ?corrupt]
  have four: "load_processed_files ?corrupt = Inl JSONDecodeError" by blast
  have mk: "fst (makedirs [''out''] (tree ?corrupt)) = Inr ()"
    by code_simp
  from load_contract [of ?corrupt good_pipeline "[]" "[''in'']" "[''out'']" 2] four mk
  have five: "fst (batch good_pipeline [] [''in''] [''out''] 2 ?corrupt) = Some JSONDecodeError"
    "run_tasks ?corrupt (snd (batch good_pipeline [] [''in''] [''out''] 2 ?corrupt)) = []"
    by blast+
  from one two three four five show ?thesis by blast
qed

section \<open>The worker boundary\<close>

text \<open>
  Claim C3 does not hold as stated: \<^verbatim>\<open>except Exception\<close> does not match an exception
  that derives from \<^verbatim>\<open>BaseException\<close> only. When the pipeline is interrupted, the worker
  returns neither the file name nor \<^verbatim>\<open>None\<close>, prints nothing, and the exception leaves
  it.
\<close>

theorem interrupt_leaves_worker:
  "fst (process_single_pdf interrupted_pipeline ([''in'', ''a.pdf''], [''out'']) example_world)
     = Inl KeyboardInterrupt \<and>
   fst (process_single_pdf interrupted_pipeline ([''in'', ''a.pdf''], [''out'']) example_world)
     \<noteq> Inr (Some ''a.pdf'') \<and>
   fst (process_single_pdf interrupted_pipeline ([''in'', ''a.pdf''], [''out'']) example_world)
     \<noteq> Inr None \<and>
   console (snd (process_single_pdf interrupted_pipeline ([''in'', ''a.pdf''], [''out''])
                   example_world)) = []"
proof -
  have "fst (process_single_pdf interrupted_pipeline ([''in'', ''a.pdf''], [''out'']) example_world)
     = Inl KeyboardInterrupt"
    by code_simp
  moreover have "console (snd (process_single_pdf interrupted_pipeline
      ([''in'', ''a.pdf''], [''out'']) example_world)) = []"
    by code_simp
  ultimately show ?thesis by simp
qed

text \<open>
  Claim C3, amended. For every task, \<^verbatim>\<open>process_single_pdf\<close> returns the name of the input
  file when its body raises nothing; when the body raises an exception that derives from
  \<^verbatim>\<open>Exception\<close> and the standard output can show the line that reports it, the worker
  prints that line, which names the file, and returns \<^verbatim>\<open>None\<close>; an exception outside
  that class is not caught and leaves the worker; and as long as the report of what the
  body raises can be shown, nothing else leaves it.
\<close>

theorem worker_catches_Exception:
  "(\<forall>t'. worker_body pl pdf_path output_root (tree w) = (Inr (), t') \<longrightarrow>
      process_single_pdf pl (pdf_path, output_root) w
        = (Inr (Some (name pdf_path)), w\<lparr>tree := t'\<rparr>)) \<and>
   (\<forall>e t'. worker_body pl pdf_path output_root (tree w) = (Inl e, t') \<and> is_Exception e \<and>
           stdout_encodes w (name pdf_path) e \<longrightarrow>
      process_single_pdf pl (pdf_path, output_root) w
        = (Inr None, w\<lparr>tree := t', console := console w @ [Failed_line (name pdf_path) e]\<rparr>)) \<and>
   (\<forall>e t'. worker_body pl pdf_path output_root (tree w) = (Inl e, t') \<and> \<not> is_Exception e \<longrightarrow>
      process_single_pdf pl (pdf_path, output_root) w = (Inl e, w\<lparr>tree := t'\<rparr>)) \<and>
   ((\<forall>e t'. worker_body pl pdf_path output_root (tree w) = (Inl e, t') \<and> is_Exception e \<longrightarrow>
        stdout_encodes w (name pdf_path) e) \<longrightarrow>
    fst (process_single_pdf pl (pdf_path, output_root) w) = Inr (Some (name pdf_path)) \<or>
    fst (process_single_pdf pl (pdf_path, output_root) w) = Inr None \<or>
    (\<exists>e. fst (process_single_pdf pl (pdf_path, output_root) w) = Inl e \<and> \<not> is_Exception e))"
proof -
  have "\<forall>t'. worker_body pl pdf_path output_root (tree w) = (Inr (), t') \<longrightarrow>
      process_single_pdf pl (pdf_path, output_root) w
        = (Inr (Some (name pdf_path)), w\<lparr>tree := t'\<rparr>)"
    by (simp add: process_single_pdf_def)
  moreover have "\<forall>e t'. worker_body pl pdf_path output_root (tree w) = (Inl e, t') \<and> is_Exception e \<and>
           stdout_encodes w (name pdf_path) e \<longrightarrow>
      process_single_pdf pl (pdf_path, output_root) w
        = (Inr None, w\<lparr>tree := t', console := console w @ [Failed_line (name pdf_path) e]\<rparr>)"
    by (simp add: process_single_pdf_def)
  moreover have "\<forall>e t'. worker_body pl pdf_path output_root (tree w) = (Inl e, t') \<and> \<not> is_Exception e \<longrightarrow>
      process_single_pdf pl (pdf_path, output_root) w = (Inl e, w\<lparr>tree := t'\<rparr>)"
    by (simp add: process_single_pdf_def)
  moreover have "(\<forall>e t'. worker_body pl pdf_path output_root (tree w) = (Inl e, t') \<and> is_Exception e \<longrightarrow>
        stdout_encodes w (name pdf_path) e) \<longrightarrow>
    fst (process_single_pdf pl (pdf_path, output_root) w) = Inr (Some (name pdf_path)) \<or>
    fst (process_single_pdf pl (pdf_path, output_root) w) = Inr None \<or>
    (\<exists>e. fst (process_single_pdf pl (pdf_path, output_root) w) = Inl e \<and> \<not> is_Exception e)"
  proof
    assume shown: "\<forall>e t'. worker_body pl pdf_path output_root (tree w) = (Inl e, t') \<and> is_Exception e \<longrightarrow>
        stdout_encodes w (name pdf_path) e"
    obtain b t' where body: "worker_body pl pdf_path output_root (tree w) = (b, t')"
      by (cases "worker_body pl pdf_path output_root (tree w)")
    show "fst (process_single_pdf pl (pdf_path, output_root) w) = Inr (Some (name pdf_path)) \<or>
      fst (process_single_pdf pl (pdf_path, output_root) w) = Inr None \<or>
      (\<exists>e. fst (process_single_pdf pl (pdf_path, output_root) w) = Inl e \<and> \<not> is_Exception e)"
    proof (cases b)
      case (Inr u)
      with body show ?thesis by (simp add: process_single_pdf_def)
    next
      case (Inl e)
      show ?thesis
      proof (cases "is_Exception e")
        case True
        with shown body Inl have "stdout_encodes w (name pdf_path) e" by blast
        with body Inl True show ?thesis by (simp add: process_single_pdf_def)
      next
        case False
        with body Inl show ?thesis by (simp add: process_single_pdf_def)
      qed
    qed
  qed
  ultimately show ?thesis by blast
qed

theorem worker_catches_Exception_witness:
  "fst (worker_body good_pipeline [''in'', ''a.pdf''] [''out''] (tree example_world)) = Inr () \<and>
   fst (process_single_pdf good_pipeline ([''in'', ''a.pdf''], [''out'']) example_world)
     = Inr (Some ''a.pdf'') \<and>
   fst (worker_body picky_pipeline [''in'', ''b.pdf''] [''out''] (tree example_world))
     = Inl (PipelineError ''bad xref'') \<and>
   is_Exception (PipelineError ''bad xref'') \<and>
   stdout_encodes example_world (name [''in'', ''b.pdf'']) (PipelineError ''bad xref'') \<and>
   fst (process_single_pdf picky_pipeline ([''in'', ''b.pdf''], [''out'']) example_world)
     = Inr None \<and>
   console (snd (process_single_pdf picky_pipeline ([''in'', ''b.pdf''], [''out'']) example_world))
     = [Failed_line ''b.pdf'' (PipelineError ''bad xref'')] \<and>
   fst (worker_body interrupted_pipeline [''in'', ''a.pdf''] [''out''] (tree example_world))
     = Inl KeyboardInterrupt \<and>
   \<not> is_Exception KeyboardInterrupt \<and>
   fst (process_single_pdf interrupted_pipeline ([''in'', ''a.pdf''], [''out'']) example_world)
     = Inl KeyboardInterrupt"
proof -
  let ?a = "[''in'', ''a.pdf'']" and ?b = "[''in'', ''b.pdf'']" and ?out = "[''out'']"
  let ?t = "tree example_world"
  have a: "fst (worker_body good_pipeline ?a ?out ?t) = Inr ()"
    by code_simp
  then have "worker_body good_pipeline ?a ?out ?t
      = (Inr (), snd (worker_body good_pipeline ?a ?out ?t))"
    by (simp add: prod_eq_iff)
  with worker_catches_Exception [of good_pipeline ?a ?out example_world]
  have "process_single_pdf good_pipeline (?a, ?out) example_world
      = (Inr (Some (name ?a)), example_world\<lparr>tree := snd (worker_body good_pipeline ?a ?out ?t)\<rparr>)"
    by blast
  then have a': "fst (process_single_pdf good_pipeline (?a, ?out) example_world) = Inr (Some ''a.pdf'')"
    by (simp add: name_def)
  have b: "fst (worker_body picky_pipeline ?b ?out ?t) = Inl (PipelineError ''bad xref'')"
    by code_simp
  have shown: "stdout_encodes example_world (name ?b) (PipelineError ''bad xref'')"
    by code_simp
  from b shown have "worker_body picky_pipeline ?b ?out ?t
      = (Inl (PipelineError ''bad xref''), snd (worker_body picky_pipeline ?b ?out ?t)) \<and>
      is_Exception (PipelineError ''bad xref'') \<and>
      stdout_encodes example_world (name ?b) (PipelineError ''bad xref'')"
    by (simp add: prod_eq_iff)
  with worker_catches_Exception [of picky_pipeline ?b ?out example_world]
  have "process_single_pdf picky_pipeline (?b, ?out) example_world
      = (Inr None, example_world\<lparr>tree := snd (worker_body picky_pipeline ?b ?out ?t),
           console := console example_world @ [Failed_line (name ?b) (PipelineError ''bad xref'')]\<rparr>)"
    by blast
  then have b': "fst (process_single_pdf picky_pipeline (?b, ?out) example_world) = Inr None"
    "console (snd (process_single_pdf picky_pipeline (?b, ?out) example_world))
       = [Failed_line ''b.pdf'' (PipelineError ''bad xref'')]"
    by (simp_all add: name_def example_world_def)
  have c: "fst (worker_body interrupted_pipeline ?a ?out ?t) = Inl KeyboardInterrupt"
    by code_simp
  then have "worker_body interrupted_pipeline ?a ?out ?t
      = (Inl KeyboardInterrupt, snd (worker_body interrupted_pipeline ?a ?out ?t)) \<and>
      \<not> is_Exception KeyboardInterrupt"
    by (simp add: prod_eq_iff)
  with worker_catches_Exception [of interrupted_pipeline ?a ?out example_world]
  have "process_single_pdf interrupted_pipeline (?a, ?out) example_world
      = (Inl KeyboardInterrupt,
         example_world\<lparr>tree := snd (worker_body interrupted_pipeline ?a ?out ?t)\<rparr>)"
    by blast
  then have c': "fst (process_single_pdf interrupted_pipeline (?a, ?out) example_world)
      = Inl KeyboardInterrupt"
    by simp
  from a a' b shown b' c c' show ?thesis by simp
qed

text \<open>
  The report itself can fail. In the directory whose one document has a name that is
  not UTF-8, a pipeline error is caught, but the strict UTF-8 standard output cannot
  encode the line that names the file: \<^verbatim>\<open>print\<close> raises inside the handler, and that
  \<^verbatim>\<open>UnicodeEncodeError\<close> leaves the worker and ends the run of \<^verbatim>\<open>batch\<close>.
\<close>

lemma report_can_raise:
  "fst (worker_body picky_pipeline [''in'', raw_name] [''out''] (tree raw_name_world))
     = Inl (PipelineError ''bad xref'') \<and>
   fst (process_single_pdf picky_pipeline ([''in'', raw_name], [''out'']) raw_name_world)
     = Inl UnicodeEncodeError \<and>
   fst (batch picky_pipeline [] [''in''] [''out''] 2 raw_name_world) = Some UnicodeEncodeError"
  by code_simp

section \<open>Failure isolation\<close>

lemma makedirs_from_distinct:
  "distinct (map fst t) \<Longrightarrow> distinct (map fst (snd (makedirs_from pre cs t)))"
proof (induction cs arbitrary: pre t)
  case Nil
  then show ?case by simp
next
  case (Cons c cs)
  show ?case
  proof (cases "map_of t (pre @ [c])")
    case None
    have "distinct (map fst (AList.update (pre @ [c]) Dir t))"
      using Cons.prems by (rule distinct_update)
    from Cons.IH [OF this] None show ?thesis by simp
  next
    case (Some nd)
    with Cons.IH [OF Cons.prems] Cons.prems show ?thesis
      by (cases nd) simp_all
  qed
qed

lemma glob_distinct: "distinct (map fst t) \<Longrightarrow> distinct (glob fl t d pattern)"
  by (simp add: glob_def)

lemma glob_name_inj: "inj_on name (set (glob fl t d pattern))"
proof (rule inj_onI)
  fix p q
  assume "p \<in> set (glob fl t d pattern)" "q \<in> set (glob fl t d pattern)" "name p = name q"
  then have "p \<noteq> []" "q \<noteq> []" "butlast p = butlast q" "last p = last q"
    by (auto simp: glob_def name_def parent_def split: if_splits)
  then show "p = q"
    by (metis append_butlast_last_id)
qed

lemma enumerated_distinct:
  "distinct (map fst (tree w)) \<Longrightarrow> distinct (enumerated pdf_dir output_dir w)"
  unfolding enumerated_def makedirs_def
  by (intro glob_distinct makedirs_from_distinct)

lemma pending_distinct:
  "distinct (map fst (tree w)) \<Longrightarrow> distinct (pending pdf_dir output_dir w S)"
  unfolding pending_def
  by (simp add: distinct_map enumerated_distinct inj_on_def)

lemma pending_paths:
  "fst ` set (pending pdf_dir output_dir w S)
     = {p \<in> set (enumerated pdf_dir output_dir w). name p \<notin> S}"
  "t \<in> set (pending pdf_dir output_dir w S) \<Longrightarrow> snd t = output_dir"
  "t \<in> set (pending pdf_dir output_dir w S) \<Longrightarrow> name (fst t) \<noteq> []"
  by (auto simp: pending_def enumerated_def image_iff dest: glob_pdf_name)

lemma set_success_tokens:
  "set (success_tokens L) = {n. n \<noteq> [] \<and> (\<exists>t. (t, Inr (Some n)) \<in> set L)}"
proof (induction L)
  case Nil
  then show ?case by simp
next
  case (Cons x L)
  obtain p d out where x: "x = ((p, d), out)" by (cases x) auto
  show ?case
  proof (cases out)
    case (Inl e)
    with x Cons.IH show ?thesis by auto
  next
    case (Inr res)
    with x Cons.IH show ?thesis by (cases res) auto
  qed
qed

lemma batch_loop:
  assumes mk: "fst (makedirs output_dir (tree w)) = Inr ()"
    and ld: "load_processed_files w = Inr S" and n: "1 \<le> max_workers"
    and run: "batch pl picks pdf_dir output_dir max_workers w = (r, w')"
  shows "\<exists>r3 w3 w0.
           cwd_writable w0 = cwd_writable w \<and> completed w0 = completed w \<and>
           cwd w0 = cwd w \<and> (\<exists>D. console w0 = console w @ D) \<and>
           pool_loop pl (completion_order picks (pending pdf_dir output_dir w S)) (S, []) w0
             = (r3, w3) \<and>
           completed w' = completed w3 \<and> (\<exists>D. console w' = console w3 @ D) \<and>
           (case r3 of
              Inl e \<Rightarrow> r = Some e
            | Inr acc \<Rightarrow>
                cwd_writable w \<and> list_all encodable (sorted_list_of_set (fst acc)) \<longrightarrow> r = None)"
proof -
  let ?ts = "completion_order picks (pending pdf_dir output_dir w S)"
  let ?w0 = "w\<lparr>tree := snd (makedirs output_dir (tree w)),
                console := console w @
                  [Found_line (length (enumerated pdf_dir output_dir w)) (card S)
                     (length (pending pdf_dir output_dir w S))],
                submitted := submitted w @ pending pdf_dir output_dir w S\<rparr>"
  obtain r3 w3 where loop: "pool_loop pl ?ts (S, []) ?w0 = (r3, w3)"
    by (cases "pool_loop pl ?ts (S, []) ?w0")
  have start: "cwd_writable ?w0 = cwd_writable w \<and> completed ?w0 = completed w \<and>
           cwd ?w0 = cwd w \<and> (\<exists>D. console ?w0 = console w @ D)"
    by simp
  have "completed w' = completed w3 \<and> (\<exists>D. console w' = console w3 @ D) \<and>
           (case r3 of
              Inl e \<Rightarrow> r = Some e
            | Inr acc \<Rightarrow>
                cwd_writable w \<and> list_all encodable (sorted_list_of_set (fst acc)) \<longrightarrow> r = None)"
  proof (cases r3)
    case (Inl e)
    with run loop show ?thesis
      unfolding batch_unfold [OF mk ld n] by simp
  next
    case (Inr acc)
    obtain pf sf where acc: "acc = (pf, sf)" by (cases acc)
    let ?w4 = "w3\<lparr>console := console w3 @ [Done_line (length sf)]\<rparr>"
    obtain r5 w5 where sv: "save_processed_files pf ?w4 = (r5, w5)"
      by (cases "save_processed_files pf ?w4")
    from run loop Inr acc sv have w': "w' = w5" and r: "r = (case r5 of Inl e \<Rightarrow> Some e | Inr u \<Rightarrow> None)"
      unfolding batch_unfold [OF mk ld n] by (cases r5; simp)+
    have "cwd_writable ?w4 = cwd_writable w"
      using pool_loop_frame [OF loop] by simp
    with sv r have "cwd_writable w \<and> list_all encodable (sorted_list_of_set pf) \<longrightarrow> r = None"
      by (auto simp: save_processed_files_def)
    with save_processed_files_frame [OF sv] w' Inr acc show ?thesis by simp
  qed
  with start loop show ?thesis by blast
qed

lemma filter_key_once:
  "distinct (map f xs) \<Longrightarrow> y \<in> f ` set xs \<Longrightarrow> length [x \<leftarrow> xs. f x = y] = 1"
proof (induction xs)
  case Nil
  then show ?case by simp
next
  case (Cons x xs)
  show ?case
  proof (cases "f x = y")
    case True
    from Cons.prems(1) have fresh: "f x \<notin> f ` set xs" by simp
    have "\<forall>z\<in>set xs. f z \<noteq> y"
    proof (intro ballI notI)
      fix z
      assume "z \<in> set xs" and "f z = y"
      from this(1) have "f z \<in> f ` set xs" by (rule imageI)
      with \<open>f z = y\<close> True fresh show False by simp
    qed
    then have "[z \<leftarrow> xs. f z = y] = []"
      by (simp add: filter_empty_conv)
    with True show ?thesis by simp
  next
    case False
    with Cons show ?thesis by auto
  qed
qed

text \<open>
  Claim C5 does not hold as stated: the worker catches only what derives from
  \<^verbatim>\<open>Exception\<close>. Of the two pending documents let \<^verbatim>\<open>b.pdf\<close> alone make the analysis
  raise, and let what it raises be \<^verbatim>\<open>SystemExit\<close>. Then the one outcome that is no
  success is that exception leaving the worker; the run does not reach its last
  statement, it ends inside the loop (the parent waits for the result of the worker that
  died); and the console shows the first line of \<^verbatim>\<open>batch\<close> and nothing else, no line
  that names \<^verbatim>\<open>b.pdf\<close>.
\<close>

theorem exit_ends_the_run:
  "pending [''in''] [''out''] example_world {}
     = [([''in'', ''a.pdf''], [''out'']), ([''in'', ''b.pdf''], [''out''])] \<and>
   [x \<leftarrow> run_log example_world
           (snd (batch exiting_pipeline [] [''in''] [''out''] 2 example_world)).
      snd x \<noteq> Inr (Some (name (fst (fst x))))]
     = [(([''in'', ''b.pdf''], [''out'']), Inl SystemExit)] \<and>
   fst (batch exiting_pipeline [] [''in''] [''out''] 2 example_world) \<noteq> None \<and>
   console (snd (batch exiting_pipeline [] [''in''] [''out''] 2 example_world))
     = [Found_line 2 0 2]"
  by code_simp

text \<open>
  Claim C5, amended. Take a run that can start (the output directory can be made, the
  ledger loads to \<open>S\<close>, the working directory is writable, the pool has a worker) over a
  tree that lists no path twice, where the names in \<open>S\<close> and in the input directory are
  UTF-8, and let exactly one of the worker's outcomes be a failure, caught at the worker
  boundary: the task for \<open>bad\<close> returned \<^verbatim>\<open>None\<close>. Then the run completes; the ledger
  afterwards is \<open>S\<close> and the names of the other pending files, which are as many as the
  pending files less one and were not in \<open>S\<close>; the name of \<open>bad\<close> is not in the ledger;
  the console holds a diagnostic that names \<open>bad\<close>; and the worker ran on \<open>bad\<close> once.
\<close>

theorem failure_isolation:
  assumes mk: "fst (makedirs output_dir (tree w)) = Inr ()"
    and ld: "load_processed_files w = Inr S"
    and wr: "cwd_writable w" and n: "1 \<le> max_workers"
    and scan: "distinct (map fst (tree w))"
    and enc: "\<forall>n\<in>S \<union> name ` set (enumerated pdf_dir output_dir w). encodable n"
    and run: "batch pl picks pdf_dir output_dir max_workers w = (r, w')"
    and one: "[x \<leftarrow> run_log w w'. snd x \<noteq> Inr (Some (name (fst (fst x))))]
                = [((bad, output_dir), Inr None)]"
  shows "r = None \<and>
         load_processed_files w' =
           Inr (S \<union> name ` (fst ` set (pending pdf_dir output_dir w S) - {bad})) \<and>
         name bad \<notin> S \<union> name ` (fst ` set (pending pdf_dir output_dir w S) - {bad}) \<and>
         card (name ` (fst ` set (pending pdf_dir output_dir w S) - {bad}))
           = length (pending pdf_dir output_dir w S) - 1 \<and>
         S \<inter> name ` (fst ` set (pending pdf_dir output_dir w S) - {bad}) = {} \<and>
         (\<exists>e. is_Exception e \<and> Failed_line (name bad) e \<in> set (console w')) \<and>
         length [x \<leftarrow> run_log w w'. fst x = (bad, output_dir)] = 1"
proof -
  let ?P = "pending pdf_dir output_dir w S"
  let ?E = "[p \<leftarrow> enumerated pdf_dir output_dir w. name p \<notin> S]"
  let ?ok = "name ` (fst ` set ?P - {bad})"
  let ?bad = "((bad, output_dir), Inr None :: exn + string option)"
  from batch_loop [OF mk ld n run] obtain r3 w3 w0 where
    w0: "cwd_writable w0 = cwd_writable w" "completed w0 = completed w" "cwd w0 = cwd w" and
    loop: "pool_loop pl (completion_order picks ?P) (S, []) w0 = (r3, w3)" and
    c': "completed w' = completed w3" and
    con: "\<exists>D. console w' = console w3 @ D" and
    res: "case r3 of
            Inl e \<Rightarrow> r = Some e
          | Inr acc \<Rightarrow>
              cwd_writable w \<and> list_all encodable (sorted_list_of_set (fst acc)) \<longrightarrow> r = None"
    by blast
  from pool_loop_log [OF loop] obtain L where L: "completed w3 = completed w0 @ L"
    and part: "map fst L = take (length L) (completion_order picks ?P)"
    by blast
  have log: "run_log w w' = L"
    using c' L w0(2) by (simp add: run_log_def)
  have one': "[x \<leftarrow> L. snd x \<noteq> Inr (Some (name (fst (fst x))))] = [?bad]"
    using one log by simp
  have entries: "snd x = Inr (Some (name (fst (fst x)))) \<or> x = ?bad" if "x \<in> set L" for x
  proof (cases "snd x = Inr (Some (name (fst (fst x))))")
    case True
    then show ?thesis by simp
  next
    case False
    with that have "x \<in> set [x \<leftarrow> L. snd x \<noteq> Inr (Some (name (fst (fst x))))]"
      by simp
    then show ?thesis unfolding one' by simp
  qed
  have "?bad \<in> set [x \<leftarrow> L. snd x \<noteq> Inr (Some (name (fst (fst x))))]"
    unfolding one' by simp
  then have bad_in: "?bad \<in> set L" by simp
  have sub: "fst ` set L \<subseteq> set ?P"
  proof -
    have "set (map fst L) \<subseteq> set (completion_order picks ?P)"
      unfolding part by (rule set_take_subset)
    also have "\<dots> = set ?P"
      using mset_completion_order [of picks ?P] by (rule mset_eq_setD)
    finally show ?thesis by simp
  qed
  have tok_enc: "\<forall>m\<in>S \<union> set (success_tokens L). encodable m"
  proof
    fix m
    assume "m \<in> S \<union> set (success_tokens L)"
    then show "encodable m"
    proof
      assume "m \<in> S"
      with enc show ?thesis by blast
    next
      assume "m \<in> set (success_tokens L)"
      then obtain t where m: "(t, Inr (Some m)) \<in> set L"
        unfolding set_success_tokens by blast
      from entries [OF m] have nm: "m = name (fst t)" by auto
      from m have "fst (t, Inr (Some m) :: exn + string option) \<in> fst ` set L"
        by (rule imageI)
      with sub have "t \<in> set ?P" by auto
      then have "fst t \<in> fst ` set ?P" by (rule imageI)
      then have "fst t \<in> set (enumerated pdf_dir output_dir w)"
        unfolding pending_paths(1) by simp
      then have "name (fst t) \<in> name ` set (enumerated pdf_dir output_dir w)"
        by (rule imageI)
      with enc nm show ?thesis by blast
    qed
  qed
  obtain pf sf where r3: "r3 = Inr (pf, sf)"
  proof (cases r3)
    case (Inl e)
    have "cwd_writable w0" using wr w0(1) by simp
    from pool_loop_raised [OF this loop [unfolded Inl] L load_finite [OF ld] tok_enc]
    obtain L' t where "L = L' @ [(t, Inl e)]" by blast
    then have "(t, Inl e) \<in> set L" by simp
    from entries [OF this] have False by auto
    then show ?thesis ..
  next
    case (Inr acc)
    then show ?thesis using that by (cases acc) simp
  qed
  from pool_loop_done [OF loop [unfolded r3]] L have pf: "pf = S \<union> set (success_tokens L)"
    by auto
  have "finite (S \<union> set (success_tokens L))"
    using load_finite [OF ld] by simp
  with tok_enc have "list_all encodable (sorted_list_of_set pf)"
    unfolding pf by (simp only: list_all_sorted_list_of_set)
  then have finished: "r = None"
    using res r3 wr by simp
  from batch_finished [OF run [unfolded finished]] ld L c' w0(2)
  have order: "map fst L = completion_order picks ?P" and
    cwd': "cwd w' = (cwd w)(PROCESSED_LOG_PATH \<mapsto>
                      Names (sorted_list_of_set (S \<union> set (success_tokens L))))"
    by auto
  have perm: "mset (map fst L) = mset ?P"
    unfolding order by (rule mset_completion_order)
  have distP: "distinct ?P"
    using scan by (rule pending_distinct)
  have dist: "distinct (map fst L)"
    using distP perm by (metis mset_eq_imp_distinct_iff)
  have setL: "fst ` set L = set ?P"
    using mset_eq_setD [OF perm] by simp
  have inj: "x = y" if "x \<in> set L" "y \<in> set L" "fst x = fst y" for x y
    using dist that by (auto simp: distinct_map inj_on_def)
  have "fst ?bad \<in> fst ` set L"
    using bad_in by (rule imageI)
  then have bad_task: "(bad, output_dir) \<in> set ?P"
    using setL by simp
  have tokens: "set (success_tokens L) = ?ok"
  proof (rule set_eqI)
    fix m
    show "m \<in> set (success_tokens L) \<longleftrightarrow> m \<in> ?ok"
    proof
      assume "m \<in> set (success_tokens L)"
      then obtain t where m: "m \<noteq> []" "(t, Inr (Some m)) \<in> set L"
        unfolding set_success_tokens by blast
      from entries [OF m(2)] have name: "m = name (fst t)" by auto
      from m(2) have "fst (t, Inr (Some m) :: exn + string option) \<in> fst ` set L"
        by (rule imageI)
      then have t: "t \<in> set ?P" using setL by simp
      have "fst t \<noteq> bad"
      proof
        assume "fst t = bad"
        with pending_paths(2) [OF t] have "fst (t, Inr (Some m) :: exn + string option) = fst ?bad"
          by (simp add: prod_eq_iff)
        from inj [OF m(2) bad_in this] show False by simp
      qed
      with t name show "m \<in> ?ok" by auto
    next
      assume "m \<in> ?ok"
      then obtain t where t: "t \<in> set ?P" "fst t \<noteq> bad" "m = name (fst t)" by auto
      from t(1) setL have "t \<in> fst ` set L" by simp
      then obtain x where x: "x \<in> set L" "fst x = t" by auto
      with t(2) have "x \<noteq> ?bad" by auto
      with entries [OF x(1)] x(2) t(3) have "snd x = Inr (Some m)" by simp
      with x have "(t, Inr (Some m)) \<in> set L" by (metis prod.collapse)
      moreover have "m \<noteq> []" using pending_paths(3) [OF t(1)] t(3) by simp
      ultimately show "m \<in> set (success_tokens L)"
        unfolding set_success_tokens by blast
    qed
  qed
  have "finite (S \<union> set (success_tokens L))"
    using load_finite [OF ld] by simp
  then have loaded: "load_processed_files w' = Inr (S \<union> ?ok)"
    unfolding cwd' tokens [symmetric]
    by (simp add: load_processed_files_def json_load_def cwd')
  have paths: "fst ` set ?P = set ?E"
    by (simp add: pending_def image_image)
  have inj_name: "inj_on name (set ?E)"
    using glob_name_inj unfolding enumerated_def
    by (rule inj_on_subset) auto
  have "fst (bad, output_dir) \<in> fst ` set ?P"
    using bad_task by (rule imageI)
  then have bad_E: "bad \<in> set ?E"
    unfolding paths by simp
  have not_in: "name bad \<notin> S \<union> ?ok"
  proof -
    have "name bad \<notin> S" using bad_E by simp
    moreover have "name bad \<notin> ?ok"
    proof
      assume "name bad \<in> ?ok"
      then obtain p where p: "p \<in> set ?E" "p \<noteq> bad" "name bad = name p"
        unfolding paths by auto
      from inj_name p(3) bad_E p(1) have "bad = p" by (rule inj_onD)
      with p(2) show False by simp
    qed
    ultimately show ?thesis by simp
  qed
  have "distinct ?E"
    using enumerated_distinct [OF scan] by simp
  then have "card (set ?E) = length ?E"
    by (rule distinct_card)
  then have "card (set ?E) = length ?P"
    by (simp add: pending_def)
  moreover have "card ?ok = card (set ?E - {bad})"
    unfolding paths using inj_name by (intro card_image inj_on_subset [OF inj_name]) auto
  ultimately have count: "card ?ok = length ?P - 1"
    using bad_E by simp
  have disjoint: "S \<inter> ?ok = {}"
    unfolding paths by auto
  from pool_loop_console [OF loop L] obtain C where
    C: "console w3 = console w0 @ C"
       "\<forall>x\<in>set L. snd x = Inr None \<longrightarrow>
            (\<exists>e. is_Exception e \<and> Failed_line (name (fst (fst x))) e \<in> set C)"
    by blast
  from C(2) bad_in have "snd ?bad = Inr None \<longrightarrow>
      (\<exists>e. is_Exception e \<and> Failed_line (name (fst (fst ?bad))) e \<in> set C)"
    by (rule bspec)
  then obtain e where "is_Exception e" "Failed_line (name bad) e \<in> set C"
    by auto
  with C(1) con have diag: "\<exists>e. is_Exception e \<and> Failed_line (name bad) e \<in> set (console w')"
    by auto
  have "(bad, output_dir) \<in> fst ` set L"
    using bad_task setL by simp
  with dist have once: "length [x \<leftarrow> run_log w w'. fst x = (bad, output_dir)] = 1"
    unfolding log by (rule filter_key_once)
  from finished loaded not_in count disjoint diag once show ?thesis by blast
qed

theorem failure_isolation_witness:
  "fst (makedirs [''out''] (tree example_world)) = Inr () \<and>
   load_processed_files example_world = Inr {} \<and>
   cwd_writable example_world \<and> (1::int) \<le> 2 \<and>
   distinct (map fst (tree example_world)) \<and>
   list_all encodable (map name (enumerated [''in''] [''out''] example_world)) \<and>
   [x \<leftarrow> run_log example_world
           (snd (batch picky_pipeline [1] [''in''] [''out''] 2 example_world)).
      snd x \<noteq> Inr (Some (name (fst (fst x))))]
     = [(([''in'', ''b.pdf''], [''out'']), Inr None)] \<and>
   fst (batch picky_pipeline [1] [''in''] [''out''] 2 example_world) = None \<and>
   load_processed_files (snd (batch picky_pipeline [1] [''in''] [''out''] 2 example_world))
     = Inr {''a.pdf''} \<and>
   length [x \<leftarrow> run_log example_world
                  (snd (batch picky_pipeline [1] [''in''] [''out''] 2 example_world)).
             fst x = ([''in'', ''b.pdf''], [''out''])] = 1"
proof -
  let ?b = "batch picky_pipeline [1] [''in''] [''out''] 2 example_world"
  have mk: "fst (makedirs [''out''] (tree example_world)) = Inr ()"
    by code_simp
  have ld: "load_processed_files example_world = Inr {}"
    by (simp add: load_processed_files_def example_world_def)
  have wr: "cwd_writable example_world"
    by (simp add: example_world_def)
  have n: "(1::int) \<le> 2" by simp
  have scan: "distinct (map fst (tree example_world))"
    by (simp add: example_world_def)
  have utf: "list_all encodable (map name (enumerated [''in''] [''out''] example_world))"
    by code_simp
  then have enc: "\<forall>n\<in>{} \<union> name ` set (enumerated [''in''] [''out''] example_world). encodable n"
    by (simp add: list_all_iff)
  have run: "?b = (fst ?b, snd ?b)" by simp
  have one: "[x \<leftarrow> run_log example_world (snd ?b). snd x \<noteq> Inr (Some (name (fst (fst x))))]
     = [(([''in'', ''b.pdf''], [''out'']), Inr None)]"
    by code_simp
  have pend: "pending [''in''] [''out''] example_world {}
     = [([''in'', ''a.pdf''], [''out'']), ([''in'', ''b.pdf''], [''out''])]"
    by code_simp
  from failure_isolation [OF mk ld wr n scan enc run one]
  have "fst ?b = None"
    "load_processed_files (snd ?b) =
       Inr ({} \<union> name ` (fst ` set (pending [''in''] [''out''] example_world {})
                         - {[''in'', ''b.pdf'']}))"
    "length [x \<leftarrow> run_log example_world (snd ?b). fst x = ([''in'', ''b.pdf''], [''out''])] = 1"
    by blast+
  moreover have "fst ` set (pending [''in''] [''out''] example_world {}) - {[''in'', ''b.pdf'']}
      = {[''in'', ''a.pdf'']}"
    unfolding pend by auto
  then have "{} \<union> name ` (fst ` set (pending [''in''] [''out''] example_world {})
                         - {[''in'', ''b.pdf'']}) = {''a.pdf''}"
    by (simp add: name_def)
  ultimately have "fst ?b = None" "load_processed_files (snd ?b) = Inr {''a.pdf''}"
    "length [x \<leftarrow> run_log example_world (snd ?b). fst x = ([''in'', ''b.pdf''], [''out''])] = 1"
    by simp_all
  with mk ld wr n scan utf one show ?thesis by blast
qed

section \<open>Running twice\<close>

text \<open>
  Claim C1 does not hold as stated: a file whose task failed is not in the ledger, so the
  next run dispatches it again. With a pipeline that raises on \<^verbatim>\<open>b.pdf\<close>, the first run
  completes, the input directory is enumerated as before, and the second run submits
  the task for \<^verbatim>\<open>b.pdf\<close>: the worker has then run on that file twice.
\<close>

theorem failed_file_dispatched_again:
  "fst (batch picky_pipeline [] [''in''] [''out''] 2 example_world) = None \<and>
   enumerated [''in''] [''out''] (snd (batch picky_pipeline [] [''in''] [''out''] 2 example_world))
     = enumerated [''in''] [''out''] example_world \<and>
   run_tasks (snd (batch picky_pipeline [] [''in''] [''out''] 2 example_world))
     (snd (batch picky_pipeline [] [''in''] [''out''] 2
        (snd (batch picky_pipeline [] [''in''] [''out''] 2 example_world))))
     = [([''in'', ''b.pdf''], [''out''])] \<and>
   map fst (completed
     (snd (batch picky_pipeline [] [''in''] [''out''] 2
        (snd (batch picky_pipeline [] [''in''] [''out''] 2 example_world)))))
     = [([''in'', ''a.pdf''], [''out'']), ([''in'', ''b.pdf''], [''out'']),
        ([''in'', ''b.pdf''], [''out''])]"
  by code_simp

lemma clean_run_tokens:
  assumes entries: "\<forall>x\<in>set L. snd x = Inr (Some (name (fst (fst x))))"
    and tasks: "fst ` set L = set P" and names: "\<forall>t\<in>set P. name (fst t) \<noteq> []"
  shows "set (success_tokens L) = name ` fst ` set P"
proof (rule set_eqI)
  fix m
  show "m \<in> set (success_tokens L) \<longleftrightarrow> m \<in> name ` fst ` set P"
  proof
    assume "m \<in> set (success_tokens L)"
    then obtain t where m: "(t, Inr (Some m)) \<in> set L"
      unfolding set_success_tokens by blast
    with entries have "snd (t, Inr (Some m) :: exn + string option)
        = Inr (Some (name (fst (fst (t, Inr (Some m) :: exn + string option)))))"
      by (rule bspec)
    then have "m = name (fst t)" by simp
    moreover from m have "fst (t, Inr (Some m) :: exn + string option) \<in> fst ` set L"
      by (rule imageI)
    then have "t \<in> set P" using tasks by simp
    ultimately show "m \<in> name ` fst ` set P" by auto
  next
    assume "m \<in> name ` fst ` set P"
    then obtain t where t: "t \<in> set P" "m = name (fst t)" by auto
    from t(1) tasks have "t \<in> fst ` set L" by simp
    then obtain x where x: "x \<in> set L" "fst x = t" by auto
    from entries x(1) have "snd x = Inr (Some (name (fst (fst x))))" by (rule bspec)
    with x t(2) have "snd x = Inr (Some m)" by simp
    with x have "(t, Inr (Some m)) \<in> set L" by (metis prod.collapse)
    moreover from names t have "m \<noteq> []" by simp
    ultimately show "m \<in> set (success_tokens L)"
      unfolding set_success_tokens by blast
  qed
qed

text \<open>
  Claim C1, amended. Let a first run complete with no failed task, and let the second run
  enumerate the input directory as the first did. Then the second run submits no task
  and calls no worker, and the ledger file after it is the one the first run left. In
  the first run every worker returned the name of its file, that name is in the ledger
  the second run loads, and (the tree listing no path twice) no task ran twice.
\<close>

theorem rerun_after_clean_run:
  assumes run1: "batch pl1 picks1 pdf_dir output_dir n1 w = (None, w1)"
    and clean: "\<forall>x\<in>set (run_log w w1). snd x \<noteq> Inr None"
    and same: "enumerated pdf_dir output_dir w1 = enumerated pdf_dir output_dir w"
    and scan: "distinct (map fst (tree w))"
    and run2: "batch pl2 picks2 pdf_dir output_dir n2 w1 = (r2, w2)"
  shows "run_tasks w1 w2 = [] \<and> run_log w1 w2 = [] \<and> cwd w2 = cwd w1 \<and>
         distinct (map fst (run_log w w2)) \<and>
         (\<exists>T. load_processed_files w1 = Inr T \<and> load_processed_files w2 = Inr T \<and>
              (\<forall>x\<in>set (run_log w w1).
                 snd x = Inr (Some (name (fst (fst x)))) \<and> name (fst (fst x)) \<in> T))"
proof -
  from batch_finished [OF run1] obtain S L where
    ld: "load_processed_files w = Inr S" and
    wr: "cwd_writable w" and
    L: "completed w1 = completed w @ L"
       "map fst L = completion_order picks1 (pending pdf_dir output_dir w S)"
       "\<forall>x\<in>set L. snd x = Inr (Some (name (fst (fst x)))) \<or> snd x = Inr None" and
    enc1: "list_all encodable (sorted_list_of_set (S \<union> set (success_tokens L)))" and
    cwd1: "cwd w1 = (cwd w)(PROCESSED_LOG_PATH \<mapsto>
                      Names (sorted_list_of_set (S \<union> set (success_tokens L))))" and
    mk1: "fst (makedirs output_dir (tree w)) = Inr ()" and n1: "1 \<le> n1"
    by blast
  let ?P = "pending pdf_dir output_dir w S"
  let ?T = "S \<union> name ` fst ` set ?P"
  have log1: "run_log w w1 = L"
    using L(1) by (simp add: run_log_def)
  have entries: "\<forall>x\<in>set L. snd x = Inr (Some (name (fst (fst x))))"
    using L(3) clean unfolding log1 by blast
  have perm: "mset (map fst L) = mset ?P"
    unfolding L(2) by (rule mset_completion_order)
  have setL: "fst ` set L = set ?P"
    using mset_eq_setD [OF perm] by simp
  have "\<forall>t\<in>set ?P. name (fst t) \<noteq> []"
    using pending_paths(3) by blast
  with entries setL have tokens: "set (success_tokens L) = name ` fst ` set ?P"
    by (rule clean_run_tokens)
  have fin: "finite ?T"
    using load_finite [OF ld] by simp
  have file1: "cwd w1 PROCESSED_LOG_PATH = Some (Names (sorted_list_of_set ?T))"
    unfolding cwd1 tokens by simp
  with fin have ld1: "load_processed_files w1 = Inr ?T"
    by (simp add: load_processed_files_def json_load_def)
  have all_in: "name p \<in> ?T" if "p \<in> set (enumerated pdf_dir output_dir w)" for p
  proof (cases "name p \<in> S")
    case True
    then show ?thesis by simp
  next
    case False
    with that have "p \<in> fst ` set ?P"
      unfolding pending_paths(1) by simp
    then show ?thesis by simp
  qed
  have "\<forall>p\<in>set (enumerated pdf_dir output_dir w1). \<not> name p \<notin> ?T"
    unfolding same using all_in by blast
  then have "[p \<leftarrow> enumerated pdf_dir output_dir w1. name p \<notin> ?T] = []"
    unfolding filter_empty_conv .
  then have none: "pending pdf_dir output_dir w1 ?T = []"
    unfolding pending_def [of pdf_dir output_dir w1 ?T] by simp
  have wr1: "cwd_writable w1"
    using batch_started [OF mk1 ld n1 run1] wr by simp
  have second: "run_tasks w1 w2 = [] \<and> run_log w1 w2 = [] \<and> cwd w2 = cwd w1 \<and>
      completed w2 = completed w1"
  proof (cases "fst (makedirs output_dir (tree w1)) = Inr () \<and> 1 \<le> n2")
    case False
    then have "fst (makedirs output_dir (tree w1)) \<noteq> Inr () \<or>
        load_processed_files w1 \<noteq> Inr ?T \<or> n2 < 1"
      by auto
    from batch_not_started [OF this _ run2] ld1 show ?thesis
      by (simp add: run_tasks_def run_log_def)
  next
    case True
    then have mk2: "fst (makedirs output_dir (tree w1)) = Inr ()" and n2: "1 \<le> n2"
      by simp_all
    from batch_started [OF mk2 ld1 n2 run2] obtain L2 where
      sub: "submitted w2 = submitted w1 @ pending pdf_dir output_dir w1 ?T" and
      L2: "completed w2 = completed w1 @ L2"
        "map fst L2 = take (length L2) (completion_order picks2 (pending pdf_dir output_dir w1 ?T))"
      by blast
    have "completion_order picks2 ([] :: task list) = []"
      by (cases picks2) simp_all
    with L2(2) none have empty: "L2 = []" by simp
    from batch_loop [OF mk2 ld1 n2 run2] obtain r3 w3 w0 where
      loop: "pool_loop pl2 (completion_order picks2 (pending pdf_dir output_dir w1 ?T)) (?T, []) w0
             = (r3, w3)" and
      res: "case r3 of
              Inl e \<Rightarrow> r2 = Some e
            | Inr acc \<Rightarrow>
                cwd_writable w1 \<and> list_all encodable (sorted_list_of_set (fst acc)) \<longrightarrow> r2 = None"
      by blast
    from loop none \<open>completion_order picks2 ([] :: task list) = []\<close>
    have "r3 = Inr (?T, [])" by simp
    moreover have "list_all encodable (sorted_list_of_set ?T)"
      using enc1 unfolding tokens .
    ultimately have "r2 = None" using res wr1 by simp
    from batch_finished [OF run2 [unfolded this]] ld1 L2(1) empty
    have "cwd w2 = (cwd w1)(PROCESSED_LOG_PATH \<mapsto> Names (sorted_list_of_set ?T))"
      by auto
    with file1 have "cwd w2 = cwd w1"
      by (simp add: fun_upd_idem)
    with sub none L2(1) empty show ?thesis
      by (simp add: run_tasks_def run_log_def)
  qed
  then have ld2: "load_processed_files w2 = Inr ?T"
    using ld1 by (simp add: load_processed_files_def)
  have "completed w2 = completed w1"
    using second by simp
  then have "run_log w w2 = L"
    using L(1) by (simp add: run_log_def)
  moreover have "distinct (map fst L)"
    using pending_distinct [OF scan] perm by (metis mset_eq_imp_distinct_iff)
  ultimately have once: "distinct (map fst (run_log w w2))" by simp
  have "\<forall>x\<in>set (run_log w w1).
          snd x = Inr (Some (name (fst (fst x)))) \<and> name (fst (fst x)) \<in> ?T"
  proof
    fix x
    assume "x \<in> set (run_log w w1)"
    then have x: "x \<in> set L" unfolding log1 .
    then have "fst x \<in> fst ` set L" by (rule imageI)
    then have "fst x \<in> set ?P" using setL by simp
    then have "name (fst (fst x)) \<in> ?T" by simp
    with entries x show "snd x = Inr (Some (name (fst (fst x)))) \<and> name (fst (fst x)) \<in> ?T"
      by simp
  qed
  with second once ld1 ld2 show ?thesis by blast
qed

theorem rerun_after_clean_run_witness:
  "fst (batch good_pipeline [1] [''in''] [''out''] 2 example_world) = None \<and>
   [x \<leftarrow> run_log example_world (snd (batch good_pipeline [1] [''in''] [''out''] 2 example_world)).
      snd x = Inr None] = [] \<and>
   enumerated [''in''] [''out''] (snd (batch good_pipeline [1] [''in''] [''out''] 2 example_world))
     = enumerated [''in''] [''out''] example_world \<and>
   distinct (map fst (tree example_world)) \<and>
   run_tasks (snd (batch good_pipeline [1] [''in''] [''out''] 2 example_world))
     (snd (batch good_pipeline [] [''in''] [''out''] 2
        (snd (batch good_pipeline [1] [''in''] [''out''] 2 example_world)))) = [] \<and>
   run_log (snd (batch good_pipeline [1] [''in''] [''out''] 2 example_world))
     (snd (batch good_pipeline [] [''in''] [''out''] 2
        (snd (batch good_pipeline [1] [''in''] [''out''] 2 example_world)))) = [] \<and>
   load_processed_files
     (snd (batch good_pipeline [] [''in''] [''out''] 2
        (snd (batch good_pipeline [1] [''in''] [''out''] 2 example_world))))
     = Inr {''a.pdf'', ''b.pdf''}"
proof -
  let ?w1 = "snd (batch good_pipeline [1] [''in''] [''out''] 2 example_world)"
  let ?b2 = "batch good_pipeline [] [''in''] [''out''] 2 ?w1"
  have r1: "fst (batch good_pipeline [1] [''in''] [''out''] 2 example_world) = None"
    by code_simp
  then have run1: "batch good_pipeline [1] [''in''] [''out''] 2 example_world = (None, ?w1)"
    by (simp add: prod_eq_iff)
  have log1: "run_log example_world ?w1
      = [(([''in'', ''b.pdf''], [''out'']), Inr (Some ''b.pdf'')),
         (([''in'', ''a.pdf''], [''out'']), Inr (Some ''a.pdf''))]"
    by code_simp
  then have clean: "\<forall>x\<in>set (run_log example_world ?w1). snd x \<noteq> Inr None"
    by simp
  from log1 have clean': "[x \<leftarrow> run_log example_world ?w1. snd x = Inr None] = []"
    by simp
  have same: "enumerated [''in''] [''out''] ?w1 = enumerated [''in''] [''out''] example_world"
    by code_simp
  have scan: "distinct (map fst (tree example_world))"
    by (simp add: example_world_def)
  have run2: "?b2 = (fst ?b2, snd ?b2)" by simp
  have ld1: "load_processed_files ?w1 = Inr {''a.pdf'', ''b.pdf''}"
    by code_simp
  from rerun_after_clean_run [OF run1 clean same scan run2] obtain T where
    "run_tasks ?w1 (snd ?b2) = []" "run_log ?w1 (snd ?b2) = []"
    "load_processed_files ?w1 = Inr T" "load_processed_files (snd ?b2) = Inr T"
    by blast
  with ld1 have "run_tasks ?w1 (snd ?b2) = []" "run_log ?w1 (snd ?b2) = []"
    "load_processed_files (snd ?b2) = Inr {''a.pdf'', ''b.pdf''}"
    by simp_all
  with r1 clean' same scan show ?thesis by blast
qed

section \<open>Progress is durable\<close>

text \<open>
  Claim C2 says that after every handled success the ledger file holds the sorted array
  of the loaded set and the tokens collected so far, so that the persisted set only
  grows. The code does not do that when a token is a name that is not UTF-8. In the
  directory whose one document is named by the bytes \<open>0xFF\<close>, \<^verbatim>\<open>.pdf\<close>, beside a ledger
  that names \<^verbatim>\<open>old.pdf\<close>, the worker succeeds and returns that name; the loop adds it and
  calls \<^verbatim>\<open>save_processed_files\<close>, which empties the file and raises while it writes the
  array. The run ends with \<^verbatim>\<open>UnicodeEncodeError\<close>, the file is no array any more, and a
  later load raises: the entry \<^verbatim>\<open>old.pdf\<close> is lost and the new one is not recorded.
\<close>

theorem success_cuts_ledger_short:
  "load_processed_files raw_name_world = Inr {''old.pdf''} \<and>
   run_log raw_name_world (snd (batch good_pipeline [] [''in''] [''out''] 2 raw_name_world))
     = [(([''in'', raw_name], [''out'']), Inr (Some raw_name))] \<and>
   fst (batch good_pipeline [] [''in''] [''out''] 2 raw_name_world) = Some UnicodeEncodeError \<and>
   cwd (snd (batch good_pipeline [] [''in''] [''out''] 2 raw_name_world)) PROCESSED_LOG_PATH
     = Some Corrupt \<and>
   load_processed_files (snd (batch good_pipeline [] [''in''] [''out''] 2 raw_name_world))
     = Inl JSONDecodeError"
  by code_simp

text \<open>
  With names that are UTF-8 the loop keeps the file in step. Let the loop have handled
  the completions \<open>pre\<close> from a ledger that loads to \<open>S\<close>, in a writable working
  directory, and let the next completed task \<open>t\<close> return a token. Then the loop goes on,
  and before it handles the completion after \<open>t\<close> the ledger file holds the sorted array
  of \<open>S\<close> and the tokens collected so far, the new token among them.
\<close>

lemma progress_of_utf8_names:
  assumes ld: "load_processed_files w = Inr S" and wr: "cwd_writable w"
    and before: "pool_loop pl pre (S, []) w = (Inr acc, w1)"
    and success: "process_single_pdf pl t w1 = (Inr (Some tok), w1')" and truthy: "tok \<noteq> []"
    and enc: "\<forall>n\<in>S \<union> set (snd acc) \<union> {tok}. encodable n"
  shows "\<exists>pf sf w2.
           pool_loop pl (pre @ [t]) (S, []) w = (Inr (pf, sf), w2) \<and>
           sf = snd acc @ [tok] \<and> pf = S \<union> set sf \<and>
           cwd w2 PROCESSED_LOG_PATH = Some (Names (sorted_list_of_set (S \<union> set sf))) \<and>
           load_processed_files w2 = Inr (S \<union> set sf) \<and>
           (\<forall>post. pool_loop pl (pre @ t # post) (S, []) w = pool_loop pl post (pf, sf) w2)"
proof -
  obtain pf0 sf0 where acc: "acc = (pf0, sf0)" by (cases acc)
  from pool_loop_done [OF before [unfolded acc]] have pf0: "pf0 = S \<union> set sf0"
    by auto
  let ?pf = "insert tok pf0" and ?sf = "sf0 @ [tok]"
  let ?w1 = "w1'\<lparr>completed := completed w1' @ [(t, Inr (Some tok))]\<rparr>"
  let ?w2 = "?w1\<lparr>cwd := (cwd ?w1)(PROCESSED_LOG_PATH \<mapsto> Names (sorted_list_of_set ?pf))\<rparr>"
  have sets: "?pf = S \<union> set ?sf"
    unfolding pf0 by auto
  have fin: "finite (S \<union> set ?sf)"
    using load_finite [OF ld] by simp
  have "\<forall>n\<in>S \<union> set ?sf. encodable n"
    using enc unfolding acc by auto
  with fin have utf: "list_all encodable (sorted_list_of_set ?pf)"
    unfolding sets by (simp only: list_all_sorted_list_of_set)
  have "cwd_writable w1" using pool_loop_frame [OF before] wr by simp
  then have "cwd_writable ?w1"
    using process_single_pdf_frame(2) [OF success] by simp
  then have handled: "handle_result (Some tok) (pf0, sf0) ?w1 = (Inr (?pf, ?sf), ?w2)"
    unfolding handle_result_eq using truthy utf by simp
  have one: "pool_loop pl [t] (pf0, sf0) w1 = (Inr (?pf, ?sf), ?w2)"
    using success handled by simp
  have split: "pool_loop pl (pre @ ts) (S, []) w = pool_loop pl ts (pf0, sf0) w1" for ts
    unfolding pool_loop_append before acc by simp
  have upto: "pool_loop pl (pre @ [t]) (S, []) w = (Inr (?pf, ?sf), ?w2)"
    unfolding split one ..
  have "cwd ?w2 PROCESSED_LOG_PATH = Some (Names (sorted_list_of_set ?pf))"
    by (simp del: sorted_list_of_set.sorted_key_list_of_set_insert_remove)
  then have content: "cwd ?w2 PROCESSED_LOG_PATH = Some (Names (sorted_list_of_set (S \<union> set ?sf)))"
    unfolding sets .
  from fin content have loaded: "load_processed_files ?w2 = Inr (S \<union> set ?sf)"
    by (rule load_of_saved)
  have rest: "pool_loop pl (pre @ t # post) (S, []) w = pool_loop pl post (?pf, ?sf) ?w2" for post
  proof -
    have "pool_loop pl (pre @ t # post) (S, []) w = pool_loop pl ([t] @ post) (pf0, sf0) w1"
      unfolding split by simp
    also have "\<dots> = pool_loop pl post (?pf, ?sf) ?w2"
      unfolding pool_loop_append one by simp
    finally show ?thesis .
  qed
  have "snd acc @ [tok] = ?sf" unfolding acc by simp
  with upto sets content loaded rest show ?thesis
    by blast
qed

section \<open>What a successful worker leaves behind\<close>

lemma rfind_None: "c \<notin> set ys \<Longrightarrow> rfind c ys = None"
  by (induction ys) auto

lemma rfind_last: "c \<notin> set ys \<Longrightarrow> rfind c (xs @ c # ys) = Some (length xs)"
  by (induction xs) (auto simp: rfind_None)

lemma stem_pdf:
  assumes "name p = doc @ ''.pdf''" and "doc \<noteq> []"
  shows "stem p = doc"
proof -
  have "rfind (CHR ''.'') (doc @ CHR ''.'' # ''pdf'') = Some (length doc)"
    by (rule rfind_last) simp
  with assms show ?thesis
    by (simp add: stem_def)
qed

lemma and_then_InrE:
  assumes "and_then m f t = (Inr x, t'')"
  obtains a t' where "m t = (Inr a, t')" and "f a t' = (Inr x, t'')"
  using assms by (auto simp: and_then_def split: prod.splits sum.splits)

lemma write_file_Inr:
  "write_file p b t = (Inr u, t') \<Longrightarrow> map_of t' = (map_of t)(p \<mapsto> File b)"
  by (auto simp: write_file_def update_conv' split: if_splits)

lemma export_Inr:
  assumes "and_then (call out) (write_file p) t = (Inr u, t')"
  shows "\<exists>b. out = Inr b \<and> map_of t' = (map_of t)(p \<mapsto> File b)"
  using assms by (auto simp: call_def elim!: and_then_InrE dest: write_file_Inr)

lemma copy_step_Inr:
  assumes "(if os_path_exists t src then shutil_copyfile src dst t else (Inr (), t)) = (Inr u, t')"
    and "map_of t src = Some (File b)" and "src \<noteq> []"
  shows "src \<noteq> dst \<and> map_of t' = (map_of t)(dst \<mapsto> File b)"
proof -
  from assms(2) have ex: "os_path_exists t src"
    by (simp add: os_path_exists_def)
  with assms(1) have copy: "shutil_copyfile src dst t = (Inr u, t')" by simp
  with ex have ne: "src \<noteq> dst"
    by (auto simp: shutil_copyfile_def)
  with copy have "and_then (read_file src) (write_file dst) t = (Inr u, t')"
    by (simp add: shutil_copyfile_def)
  then obtain a t1 where "read_file src t = (Inr a, t1)" "write_file dst a t1 = (Inr u, t')"
    by (rule and_then_InrE)
  moreover from this(1) assms(2,3) have "a = b \<and> t1 = t"
    by (simp add: read_file_def)
  ultimately have "map_of t' = (map_of t)(dst \<mapsto> File b)"
    by (auto dest: write_file_Inr)
  with ne show ?thesis by simp
qed

lemma worker_body_exports:
  assumes "worker_body pl pdf_path output_root t = (Inr (), t')"
  shows "\<exists>pr t7 t8 t9 t10 t11 t12 u1 u2 u3 u4 u5.
     draw_layout pr (os_path_join (os_path_join output_root (stem pdf_path))
        (stem pdf_path @ ''_layout.pdf'')) t7 = (Inr u1, t8) \<and>
     draw_span pr (os_path_join (os_path_join output_root (stem pdf_path))
        (stem pdf_path @ ''_spans.pdf'')) t8 = (Inr u2, t9) \<and>
     dump_md pr (os_path_join output_root (stem pdf_path)) (stem pdf_path @ ''.md'')
        (os_path_basename (os_path_join (os_path_join output_root (stem pdf_path)) ''images''))
        t9 = (Inr u3, t10) \<and>
     (if os_path_exists t10 (os_path_join (os_path_join output_root (stem pdf_path))
                              (stem pdf_path @ ''.md''))
      then shutil_copyfile
             (os_path_join (os_path_join output_root (stem pdf_path)) (stem pdf_path @ ''.md''))
             (os_path_join (os_path_join output_root ''markdowns'') (stem pdf_path @ ''.md'')) t10
      else (Inr (), t10)) = (Inr u4, t11) \<and>
     dump_content_list pr (os_path_join output_root (stem pdf_path))
        (stem pdf_path @ ''_content_list.json'')
        (os_path_basename (os_path_join (os_path_join output_root (stem pdf_path)) ''images''))
        t11 = (Inr u5, t12) \<and>
     dump_middle_json pr (os_path_join output_root (stem pdf_path))
        (stem pdf_path @ ''_middle.json'') t12 = (Inr (), t')"
  using assms unfolding worker_body_def Let_def
  by (elim and_then_InrE) blast

text \<open>
  Claim C8. When \<^verbatim>\<open>process_single_pdf\<close> returns the success token for an input file named
  \<open>doc\<close> followed by \<^verbatim>\<open>.pdf\<close> (\<open>doc\<close> not empty), the token is that name, the directory
  \<open>doc\<close> under the output root holds the markdown file, the layout and span renderings,
  the content list and the intermediate representation, and the file of the same name
  under \<^verbatim>\<open>markdowns\<close> holds the bytes of the markdown file.
\<close>

theorem output_completeness:
  assumes run: "process_single_pdf pl (pdf_path, output_root) w = (Inr (Some tok), w')"
    and nm: "name pdf_path = doc @ ''.pdf''" and doc: "doc \<noteq> []"
  shows "tok = doc @ ''.pdf'' \<and>
         (\<exists>md layout spans content middle.
            map_of (tree w') (output_root @ [doc, doc @ ''.md'']) = Some (File md) \<and>
            map_of (tree w') (output_root @ [doc, doc @ ''_layout.pdf'']) = Some (File layout) \<and>
            map_of (tree w') (output_root @ [doc, doc @ ''_spans.pdf'']) = Some (File spans) \<and>
            map_of (tree w') (output_root @ [doc, doc @ ''_content_list.json''])
              = Some (File content) \<and>
            map_of (tree w') (output_root @ [doc, doc @ ''_middle.json'']) = Some (File middle) \<and>
            map_of (tree w') (output_root @ [''markdowns'', doc @ ''.md'']) = Some (File md))"
proof -
  from run obtain t' where
    body: "worker_body pl pdf_path output_root (tree w) = (Inr (), t')" and
    w': "tree w' = t'" and tok: "tok = name pdf_path"
    by (auto simp: process_single_pdf_def split: prod.splits sum.splits if_splits)
  have st: "stem pdf_path = doc"
    using nm doc by (rule stem_pdf)
  let ?md = "output_root @ [doc, doc @ ''.md'']"
  let ?layout = "output_root @ [doc, doc @ ''_layout.pdf'']"
  let ?spans = "output_root @ [doc, doc @ ''_spans.pdf'']"
  let ?content = "output_root @ [doc, doc @ ''_content_list.json'']"
  let ?middle = "output_root @ [doc, doc @ ''_middle.json'']"
  let ?copy = "output_root @ [''markdowns'', doc @ ''.md'']"
  from worker_body_exports [OF body] obtain pr t7 t8 t9 t10 t11 t12 u1 u2 u3 u4 u5 where
    raw: "draw_layout pr (os_path_join (os_path_join output_root doc) (doc @ ''_layout.pdf'')) t7
            = (Inr u1, t8)"
      "draw_span pr (os_path_join (os_path_join output_root doc) (doc @ ''_spans.pdf'')) t8
            = (Inr u2, t9)"
      "dump_md pr (os_path_join output_root doc) (doc @ ''.md'')
         (os_path_basename (os_path_join (os_path_join output_root doc) ''images'')) t9
            = (Inr u3, t10)"
      "(if os_path_exists t10 (os_path_join (os_path_join output_root doc) (doc @ ''.md''))
        then shutil_copyfile
               (os_path_join (os_path_join output_root doc) (doc @ ''.md''))
               (os_path_join (os_path_join output_root ''markdowns'') (doc @ ''.md'')) t10
        else (Inr (), t10)) = (Inr u4, t11)"
      "dump_content_list pr (os_path_join output_root doc) (doc @ ''_content_list.json'')
         (os_path_basename (os_path_join (os_path_join output_root doc) ''images'')) t11
            = (Inr u5, t12)"
      "dump_middle_json pr (os_path_join output_root doc) (doc @ ''_middle.json'') t12
            = (Inr (), t')"
    unfolding st by blast
  have e1: "draw_layout pr ?layout t7 = (Inr u1, t8)"
    using raw(1) by (simp add: os_path_join_def)
  have e2: "draw_span pr ?spans t8 = (Inr u2, t9)"
    using raw(2) by (simp add: os_path_join_def)
  have e3: "dump_md pr (output_root @ [doc]) (doc @ ''.md'') ''images'' t9 = (Inr u3, t10)"
    using raw(3) by (simp add: os_path_join_def os_path_basename_def)
  have e4: "(if os_path_exists t10 ?md then shutil_copyfile ?md ?copy t10 else (Inr (), t10))
           = (Inr u4, t11)"
    using raw(4) by (simp add: os_path_join_def cong: if_cong)
  have e5: "dump_content_list pr (output_root @ [doc]) (doc @ ''_content_list.json'') ''images'' t11
           = (Inr u5, t12)"
    using raw(5) by (simp add: os_path_join_def os_path_basename_def)
  have e6: "dump_middle_json pr (output_root @ [doc]) (doc @ ''_middle.json'') t12 = (Inr (), t')"
    using raw(6) by (simp add: os_path_join_def)
  from e1 obtain bl where m8: "map_of t8 = (map_of t7)(?layout \<mapsto> File bl)"
    unfolding draw_layout_def by (blast dest: export_Inr)
  from e2 obtain bs where m9: "map_of t9 = (map_of t8)(?spans \<mapsto> File bs)"
    unfolding draw_span_def by (blast dest: export_Inr)
  from e3 obtain bm where m10: "map_of t10 = (map_of t9)(?md \<mapsto> File bm)"
    unfolding dump_md_def os_path_join_def by (auto dest: export_Inr)
  have "map_of t10 ?md = Some (File bm)" "?md \<noteq> []"
    unfolding m10 by simp_all
  with e4 have ne: "?md \<noteq> ?copy" and m11: "map_of t11 = (map_of t10)(?copy \<mapsto> File bm)"
    using copy_step_Inr [of t10 ?md ?copy u4 t11 bm] by blast+
  from e5 obtain bc where m12: "map_of t12 = (map_of t11)(?content \<mapsto> File bc)"
    unfolding dump_content_list_def os_path_join_def by (auto dest: export_Inr)
  from e6 obtain bj where m13: "map_of t' = (map_of t12)(?middle \<mapsto> File bj)"
    unfolding dump_middle_json_def os_path_join_def by (auto dest: export_Inr)
  have "map_of t' ?md = Some (File bm)"
    unfolding m13 m12 m11 m10 using ne by simp
  moreover have "map_of t' ?layout = Some (File bl)"
    unfolding m13 m12 m11 m10 m9 m8 by simp
  moreover have "map_of t' ?spans = Some (File bs)"
    unfolding m13 m12 m11 m10 m9 by simp
  moreover have "map_of t' ?content = Some (File bc)"
    unfolding m13 m12 by simp
  moreover have "map_of t' ?middle = Some (File bj)"
    unfolding m13 by simp
  moreover have "map_of t' ?copy = Some (File bm)"
    unfolding m13 m12 m11 by simp
  ultimately show ?thesis
    unfolding w' using tok nm by blast
qed

theorem output_completeness_witness:
  "fst (process_single_pdf good_pipeline ([''in'', ''a.pdf''], [''out'']) example_world)
     = Inr (Some ''a.pdf'') \<and>
   name [''in'', ''a.pdf''] = ''a'' @ ''.pdf'' \<and> ''a'' \<noteq> [] \<and>
   map_of (tree (snd (process_single_pdf good_pipeline ([''in'', ''a.pdf''], [''out''])
                        example_world))) [''out'', ''a'', ''a.md'']
     = Some (File ''M'') \<and>
   map_of (tree (snd (process_single_pdf good_pipeline ([''in'', ''a.pdf''], [''out''])
                        example_world))) [''out'', ''markdowns'', ''a.md'']
     = map_of (tree (snd (process_single_pdf good_pipeline ([''in'', ''a.pdf''], [''out''])
                        example_world))) [''out'', ''a'', ''a.md'']"
proof -
  let ?p = "process_single_pdf good_pipeline ([''in'', ''a.pdf''], [''out'']) example_world"
  have r: "fst ?p = Inr (Some ''a.pdf'')"
    by code_simp
  then have run: "?p = (Inr (Some ''a.pdf''), snd ?p)"
    by (simp add: prod_eq_iff)
  have nm: "name [''in'', ''a.pdf''] = ''a'' @ ''.pdf''"
    by (simp add: name_def)
  have doc: "''a'' \<noteq> []" by simp
  have md: "map_of (tree (snd ?p)) [''out'', ''a'', ''a.md''] = Some (File ''M'')"
    by code_simp
  from output_completeness [OF run nm doc] obtain b where
    "map_of (tree (snd ?p)) ([''out''] @ [''a'', ''a'' @ ''.md'']) = Some (File b)"
    "map_of (tree (snd ?p)) ([''out''] @ [''markdowns'', ''a'' @ ''.md'']) = Some (File b)"
    by blast
  then have "map_of (tree (snd ?p)) [''out'', ''markdowns'', ''a.md'']
      = map_of (tree (snd ?p)) [''out'', ''a'', ''a.md'']"
    by simp
  with r nm doc md show ?thesis by blast
qed

end
